theory Spec2Isabelle
  imports Complex_Main "HOL-Library.Sublist"
begin

section \<open>Strings, dictionaries and errors of the Python program\<close>

text \<open>
  The program is \<^verbatim>\<open>src/backend/main.py\<close>. A Python \<^verbatim>\<open>str\<close> is a sequence of code
  points; it is modelled as a \<^typ>\<open>string\<close> whose characters are the code points below 256
  (the superscript two of the area note is the one character \<open>0xB2\<close>, the c with cedilla of
  the package table is \<open>0xE7\<close>). Every keyword of the program is ASCII.
\<close>

datatype py_error = KeyError string | ValueError | OverflowError

text \<open>\<^verbatim>\<open>str.lower()\<close> on the code points below 256: the letters A-Z and the capital
  letters \<open>0xC0..0xDE\<close> (without the multiplication sign \<open>0xD7\<close>) move up by 32;
  every other code point is unchanged.\<close>

definition lower_char :: "char \<Rightarrow> char" where
  "lower_char c =
     (let n = (of_char c :: nat)
      in if (65 \<le> n \<and> n \<le> 90) \<or> (192 \<le> n \<and> n \<le> 222 \<and> n \<noteq> 215)
         then char_of (n + 32) else c)"

definition lower :: "string \<Rightarrow> string" where
  "lower s = map lower_char s"

text \<open>\<^verbatim>\<open>sep.join(xs)\<close>.\<close>

fun join :: "string \<Rightarrow> string list \<Rightarrow> string" where
  "join sep [] = []"
| "join sep [x] = x"
| "join sep (x # y # ys) = x @ sep @ join sep (y # ys)"

text \<open>\<^verbatim>\<open>keyword in combined\<close>: the keyword starts at some position of the text.\<close>

fun starts_with :: "string \<Rightarrow> string \<Rightarrow> bool" where
  "starts_with [] t = True"
| "starts_with (k # ks) [] = False"
| "starts_with (k # ks) (c # cs) = (k = c \<and> starts_with ks cs)"

fun contains :: "string \<Rightarrow> string \<Rightarrow> bool" where
  "contains k [] = (k = [])"
| "contains k (c # cs) = (starts_with k (c # cs) \<or> contains k cs)"

text \<open>A \<^verbatim>\<open>dict\<close> keeps its keys in insertion order: an association list with distinct
  keys. \<^verbatim>\<open>d[k]\<close> raises \<^verbatim>\<open>KeyError\<close> on a missing key; \<^verbatim>\<open>d[k] = v\<close> overwrites in
  place or appends.\<close>

type_synonym 'v dict = "(string \<times> 'v) list"

fun dict_get :: "'v dict \<Rightarrow> string \<Rightarrow> py_error + 'v" where
  "dict_get [] k = Inl (KeyError k)"
| "dict_get ((k', v) # d) k = (if k' = k then Inr v else dict_get d k)"

fun dict_set :: "'v dict \<Rightarrow> string \<Rightarrow> 'v \<Rightarrow> 'v dict" where
  "dict_set [] k v = [(k, v)]"
| "dict_set ((k', v') # d) k v = (if k' = k then (k, v) # d else (k', v') # dict_set d k v)"

section \<open>The constant tables\<close>

definition STYLE_KEYWORDS :: "(string list) dict" where
  "STYLE_KEYWORDS =
    [(''modern'', [''modern'', ''minimal'', ''clean lines'', ''glass'', ''sleek'']),
     (''farmhouse'', [''farmhouse'', ''rustic'', ''barn'', ''country'', ''cozy'']),
     (''contemporary'', [''contemporary'', ''open concept'', ''bright'', ''bold'']),
     (''traditional'', [''traditional'', ''classic'', ''timeless'', ''formal'']),
     (''coastal'', [''coastal'', ''beach'', ''light'', ''airy'', ''ocean'']),
     (''craftsman'', [''craftsman'', ''handmade'', ''wood'', ''detail'', ''broad porch''])]"

section \<open>Style inference\<close>

text \<open>\<^verbatim>\<open>scores[style] += 1\<close>.\<close>

definition dict_incr :: "int dict \<Rightarrow> string \<Rightarrow> py_error + int dict" where
  "dict_incr scores style =
     (case dict_get scores style of
        Inl e \<Rightarrow> Inl e
      | Inr v \<Rightarrow> Inr (dict_set scores style (v + 1)))"

text \<open>The inner loop \<^verbatim>\<open>for keyword in keywords\<close> and the outer loop
  \<^verbatim>\<open>for style, keywords in STYLE_KEYWORDS.items()\<close> of \<^verbatim>\<open>infer_style\<close>.\<close>

fun count_keywords :: "string \<Rightarrow> string \<Rightarrow> string list \<Rightarrow> int dict \<Rightarrow> py_error + int dict" where
  "count_keywords combined style [] scores = Inr scores"
| "count_keywords combined style (keyword # keywords) scores =
     (if contains keyword combined
      then (case dict_incr scores style of
              Inl e \<Rightarrow> Inl e
            | Inr scores' \<Rightarrow> count_keywords combined style keywords scores')
      else count_keywords combined style keywords scores)"

fun score_styles :: "string \<Rightarrow> (string list) dict \<Rightarrow> int dict \<Rightarrow> py_error + int dict" where
  "score_styles combined [] scores = Inr scores"
| "score_styles combined ((style, keywords) # items) scores =
     (case count_keywords combined style keywords scores of
        Inl e \<Rightarrow> Inl e
      | Inr scores' \<Rightarrow> score_styles combined items scores')"

text \<open>\<^verbatim>\<open>max(scores, key=scores.get)\<close> walks the keys in insertion order and keeps the
  first key whose value is greater than every value before it; on an empty dictionary it
  raises \<^verbatim>\<open>ValueError\<close>.\<close>

fun max_from :: "string \<Rightarrow> int \<Rightarrow> int dict \<Rightarrow> string" where
  "max_from best bestv [] = best"
| "max_from best bestv ((k, v) # d) =
     (if v > bestv then max_from k v d else max_from best bestv d)"

fun max_by_value :: "int dict \<Rightarrow> py_error + string" where
  "max_by_value [] = Inl ValueError"
| "max_by_value ((k, v) # d) = Inr (max_from k v d)"

definition combined_text :: "string \<Rightarrow> string list \<Rightarrow> string" where
  "combined_text brief image_descriptions = lower (brief @ '' '' @ join '' '' image_descriptions)"

text \<open>The dictionary \<^verbatim>\<open>scores\<close> of \<^verbatim>\<open>infer_style\<close> after its two loops.\<close>

definition infer_style_scores :: "string \<Rightarrow> string list \<Rightarrow> py_error + int dict" where
  "infer_style_scores brief image_descriptions =
     score_styles (combined_text brief image_descriptions) STYLE_KEYWORDS
       (map (\<lambda>(style, keywords). (style, 0)) STYLE_KEYWORDS)"

definition infer_style :: "string \<Rightarrow> string list \<Rightarrow> py_error + string" where
  "infer_style brief image_descriptions =
     (case infer_style_scores brief image_descriptions of
        Inl e \<Rightarrow> Inl e
      | Inr scores \<Rightarrow>
          (case max_by_value scores of
             Inl e \<Rightarrow> Inl e
           | Inr best_style \<Rightarrow>
               (case dict_get scores best_style of
                  Inl e \<Rightarrow> Inl e
                | Inr v \<Rightarrow> if v = 0 then Inr ''contemporary'' else Inr best_style)))"

section \<open>Numeric plot dimensions\<close>

text \<open>
  \<^verbatim>\<open>width_m\<close> and \<^verbatim>\<open>depth_m\<close> are annotated \<^verbatim>\<open>float\<close>, which admits Python floats and
  Python ints (the default plot of \<^verbatim>\<open>UserInputs\<close> is \<^verbatim>\<open>PlotDetails(width_m=15, depth_m=30)\<close>,
  two ints). A float is an IEEE 754 binary64 number:
  \<open>Finite s m e\<close> is the number \<open>(-1)\<^sup>s * m * 2\<^sup>e\<close> (so \<^verbatim>\<open>15.0\<close> is \<open>Finite False 15 0\<close>
  and \<^verbatim>\<open>-0.0\<close> is \<open>Finite True 0 0\<close>); the infinities and the NaN are values of their own.
\<close>

datatype pyfloat = Finite bool nat int | Infinity bool | NaN

text \<open>\<^verbatim>\<open>int.bit_length\<close>.\<close>

fun bit_length :: "nat \<Rightarrow> nat" where
  "bit_length n = (if n = 0 then 0 else Suc (bit_length (n div 2)))"

text \<open>\<open>m / 2\<^sup>k\<close> rounded to the nearest integer, a tie going to the even neighbour.\<close>

definition round_half_even :: "nat \<Rightarrow> nat \<Rightarrow> nat" where
  "round_half_even m k =
     (let q = m div 2 ^ k; r = m mod 2 ^ k
      in if 2 ^ k < 2 * r \<or> (2 * r = 2 ^ k \<and> odd q) then q + 1 else q)"

text \<open>The exact number \<open>m * 2\<^sup>e\<close> rounded to binary64 (round to nearest, ties to even):
  53 bits of precision, no exponent below \<open>-1074\<close> (the subnormal range), and an overflow
  to infinity from \<open>2\<^sup>1\<^sup>0\<^sup>2\<^sup>4\<close> on.\<close>

definition round_to_double :: "bool \<Rightarrow> nat \<Rightarrow> int \<Rightarrow> pyfloat" where
  "round_to_double s m e =
     (let k = max (int (bit_length m) - 53) (- 1074 - e);
          q = (if k \<le> 0 then m else round_half_even m (nat k));
          e' = (if k \<le> 0 then e else e + k)
      in if q \<noteq> 0 \<and> 1024 < int (bit_length q) + e' then Infinity s else Finite s q e')"

text \<open>The float product \<^verbatim>\<open>x * y\<close>.\<close>

fun fmul :: "pyfloat \<Rightarrow> pyfloat \<Rightarrow> pyfloat" where
  "fmul NaN y = NaN"
| "fmul x NaN = NaN"
| "fmul (Infinity s) (Infinity t) = Infinity (s \<noteq> t)"
| "fmul (Infinity s) (Finite t n f) = (if n = 0 then NaN else Infinity (s \<noteq> t))"
| "fmul (Finite s m e) (Infinity t) = (if m = 0 then NaN else Infinity (s \<noteq> t))"
| "fmul (Finite s m e) (Finite t n f) = round_to_double (s \<noteq> t) (m * n) (e + f)"

text \<open>\<^verbatim>\<open>str(n)\<close> of a natural number.\<close>

definition digit_char :: "nat \<Rightarrow> char" where
  "digit_char d = char_of (48 + d)"

fun str_nat :: "nat \<Rightarrow> string" where
  "str_nat n = (if n < 10 then [digit_char n] else str_nat (n div 10) @ [digit_char (n mod 10)])"

text \<open>The format \<^verbatim>\<open>{x:.0f}\<close>: no digit after the point, the exact value rounded to the
  nearest integer (ties to even), the sign kept also in front of a zero; \<^verbatim>\<open>nan\<close>,
  \<^verbatim>\<open>inf\<close> and \<^verbatim>\<open>-inf\<close> for the values that are no numbers.\<close>

fun format_0f :: "pyfloat \<Rightarrow> string" where
  "format_0f NaN = ''nan''"
| "format_0f (Infinity s) = (if s then ''-inf'' else ''inf'')"
| "format_0f (Finite s m e) =
     (if s then ''-'' else '''') @
     str_nat (if 0 \<le> e then m * 2 ^ nat e else round_half_even m (nat (- e)))"

text \<open>A number of the program: an unbounded \<^verbatim>\<open>int\<close> or a \<^verbatim>\<open>float\<close>.\<close>

datatype pynum = PyInt int | PyFloat pyfloat

text \<open>\<^verbatim>\<open>float(x)\<close>: an int is rounded to the nearest binary64 number (ties to even) and
  raises \<^verbatim>\<open>OverflowError\<close> ("int too large to convert to float") when that is out of
  range.\<close>

definition int_to_float :: "int \<Rightarrow> py_error + pyfloat" where
  "int_to_float n =
     (case round_to_double (n < 0) (nat \<bar>n\<bar>) 0 of
        Infinity s \<Rightarrow> Inl OverflowError
      | x \<Rightarrow> Inr x)"

fun to_float :: "pynum \<Rightarrow> py_error + pyfloat" where
  "to_float (PyInt n) = int_to_float n"
| "to_float (PyFloat x) = Inr x"

text \<open>The product \<^verbatim>\<open>x * y\<close>: exact on two ints; otherwise both operands are converted to
  float, the left one first, and multiplied as floats.\<close>

fun py_mul :: "pynum \<Rightarrow> pynum \<Rightarrow> py_error + pynum" where
  "py_mul (PyInt a) (PyInt b) = Inr (PyInt (a * b))"
| "py_mul x y =
     (case to_float x of
        Inl e \<Rightarrow> Inl e
      | Inr a \<Rightarrow>
          (case to_float y of
             Inl e \<Rightarrow> Inl e
           | Inr b \<Rightarrow> Inr (PyFloat (fmul a b))))"

text \<open>\<^verbatim>\<open>f"{x:.0f}"\<close> of a number: an int is converted to float first.\<close>

definition format_0f_num :: "pynum \<Rightarrow> py_error + string" where
  "format_0f_num x =
     (case to_float x of
        Inl e \<Rightarrow> Inl e
      | Inr a \<Rightarrow> Inr (format_0f a))"

section \<open>The records\<close>

record PlotDetails =
  width_m :: pynum
  depth_m :: pynum
  slope :: string
  climate :: string
  orientation :: string

record UserInputs =
  brief :: string
  image_descriptions :: "string list"
  required_rooms :: "string list"
  plot :: PlotDetails

text \<open>The fields \<^verbatim>\<open>site_strategy\<close> and \<^verbatim>\<open>room_planning_notes\<close> of the proposal carry the
  suffix \<open>_f\<close>: the methods of the same names keep the names.\<close>

record DesignProposal =
  selected_style :: string
  style_confidence :: string
  exterior_finishes :: "string list"
  interior_finishes :: "string list"
  suggested_features :: "string list"
  site_strategy_f :: "string list"
  room_planning_notes_f :: "string list"

section \<open>The style packages\<close>

definition STYLE_PACKAGES :: "((string list) dict) dict" where
  "STYLE_PACKAGES =
    [(''modern'',
       [(''exterior'',
          [''Standing seam metal roof in charcoal'',
           ''Smooth stucco with dark fiber-cement accent panels'',
           ''Black anodized aluminum windows'']),
        (''interior'',
          [''Matte engineered oak flooring'',
           ''Flat-panel cabinetry in warm walnut and soft white'',
           ''Large-format porcelain tile in wet areas'']),
        (''features'',
          [''Double-height living room glazing'',
           ''Hidden pantry wall'',
           ''Integrated linear fireplace''])]),
     (''farmhouse'',
       [(''exterior'',
          [''Board-and-batten siding in off-white'',
           ''Gable roof with black architectural shingles'',
           ''Natural stone skirt at base and porch columns'']),
        (''interior'',
          [''Wide-plank white oak floors'',
           ''Shaker cabinetry with brass hardware'',
           ''Apron-front kitchen sink with bridge faucet'']),
        (''features'',
          [''Wrap-around front porch'',
           ''Mudroom with built-in cubbies'',
           ''Exposed reclaimed wood ceiling beams''])]),
     (''contemporary'',
       [(''exterior'',
          [''Mixed cladding: fiber-cement, wood-look panels, and stone'',
           ''Asymmetrical massing with strong horizontal lines'',
           ''Dark bronze window frames'']),
        (''interior'',
          [''Neutral polished concrete or microcement floors'',
           ''High-gloss lacquer and veneer cabinet mix'',
           ''Statement staircase with glass balustrade'']),
        (''features'',
          [''Skylight strip over circulation spine'',
           ''Flexible home office / guest suite'',
           ''Smart lighting scenes and occupancy controls''])]),
     (''traditional'',
       [(''exterior'',
          [''Painted brick with stone lintel detailing'',
           ''Symmetrical fa'' @ [CHR 0xE7] @ ''ade and multi-light windows'',
           ''Slate-look roof and classic cornice profile'']),
        (''interior'',
          [''Herringbone wood flooring in main hall'',
           ''Raised-panel cabinetry'',
           ''Crown molding and paneled feature walls'']),
        (''features'',
          [''Formal dining room with butler pantry'',
           ''Library / study with built-ins'',
           ''Generous foyer with central stair''])]),
     (''coastal'',
       [(''exterior'',
          [''Light horizontal lap siding in sand tone'',
           ''White trim and composite shutters'',
           ''Metal roof accents over porches'']),
        (''interior'',
          [''Bleached oak flooring'',
           ''Soft blue-gray cabinetry accents'',
           ''Textured handmade-look ceramic backsplash'']),
        (''features'',
          [''Indoor-outdoor sliding wall'',
           ''Covered lanai with summer kitchen'',
           ''Window benches for view-focused seating''])]),
     (''craftsman'',
       [(''exterior'',
          [''Tapered porch columns on stone piers'',
           ''Earth-tone shingle + lap siding combination'',
           ''Deep overhangs with exposed rafter tails'']),
        (''interior'',
          [''Quarter-sawn oak floors and trim'',
           ''Built-in benches and bookcases'',
           ''Artisan tile around fireplace and kitchen'']),
        (''features'',
          [''Defined entry with covered porch'',
           ''Window seat nooks'',
           ''Handcrafted millwork and door casings''])])]"

section \<open>Notes and proposal\<close>

text \<open>\<^verbatim>\<open>site_strategy\<close>: the product and the format of the first note can raise
  \<^verbatim>\<open>OverflowError\<close>; the other three notes only copy strings.\<close>

definition site_strategy :: "PlotDetails \<Rightarrow> py_error + string list" where
  "site_strategy p =
     (case py_mul (width_m p) (depth_m p) of
        Inl e \<Rightarrow> Inl e
      | Inr area \<Rightarrow>
     (case format_0f_num area of
        Inl e \<Rightarrow> Inl e
      | Inr area_text \<Rightarrow>
          Inr [''Plot area is approximately '' @ area_text @ '' m'' @ [CHR 0xB2] @
                 ''; reserve 35-45% for landscaped open space.'',
               ''Align main living spaces for '' @ orientation p @
                 '' with controlled glazing for daylight comfort.'',
               ''Use a '' @ slope p @
                 '' slope strategy: stepped slab and drainage channels if not flat.'',
               ''Specify envelope and shading details suitable for '' @ climate p @
                 '' climate.'']))"

definition room_planning_notes :: "string list \<Rightarrow> string list" where
  "room_planning_notes rooms =
     (let joined = join '', '' rooms
      in [''Prioritize adjacency planning for: '' @ joined @ ''.'',
          ''Keep kitchen, dining, and family spaces connected; isolate acoustic-sensitive spaces.'',
          ''Plan storage early: pantry, linen, utility, and integrated wardrobes.''])"

text \<open>\<^verbatim>\<open>propose\<close>: the three subscripts \<^verbatim>\<open>STYLE_PACKAGES[style]\<close>, \<^verbatim>\<open>package["exterior"]\<close>
  ... raise \<^verbatim>\<open>KeyError\<close> on a missing key and \<^verbatim>\<open>site_strategy\<close> can raise
  \<^verbatim>\<open>OverflowError\<close>, in the order in which Python evaluates them.\<close>

definition propose :: "UserInputs \<Rightarrow> py_error + DesignProposal" where
  "propose inputs =
     (case infer_style (brief inputs) (image_descriptions inputs) of
        Inl e \<Rightarrow> Inl e
      | Inr style \<Rightarrow>
     (case dict_get STYLE_PACKAGES style of
        Inl e \<Rightarrow> Inl e
      | Inr package \<Rightarrow>
     (let confidence = (if length (image_descriptions inputs) > 0 then ''high'' else ''medium'')
      in
     (case dict_get package ''exterior'' of
        Inl e \<Rightarrow> Inl e
      | Inr exterior \<Rightarrow>
     (case dict_get package ''interior'' of
        Inl e \<Rightarrow> Inl e
      | Inr interior \<Rightarrow>
     (case dict_get package ''features'' of
        Inl e \<Rightarrow> Inl e
      | Inr features \<Rightarrow>
     (case site_strategy (plot inputs) of
        Inl e \<Rightarrow> Inl e
      | Inr notes \<Rightarrow>
          Inr \<lparr>selected_style = style,
               style_confidence = confidence,
               exterior_finishes = exterior,
               interior_finishes = interior,
               suggested_features = features,
               site_strategy_f = notes,
               room_planning_notes_f = room_planning_notes (required_rooms inputs)\<rparr>)))))))"

section \<open>Command line\<close>

text \<open>\<^verbatim>\<open>s.split(",")\<close>: the segments between the separators, at least one segment.\<close>

fun split_from :: "char \<Rightarrow> string \<Rightarrow> string \<Rightarrow> string list" where
  "split_from sep seg [] = [rev seg]"
| "split_from sep seg (c # cs) =
     (if c = sep then rev seg # split_from sep [] cs else split_from sep (c # seg) cs)"

definition split :: "string \<Rightarrow> char \<Rightarrow> string list" where
  "split s sep = split_from sep [] s"

text \<open>\<^verbatim>\<open>str.isspace\<close> on the code points below 256, and \<^verbatim>\<open>s.strip()\<close>.\<close>

definition is_space :: "char \<Rightarrow> bool" where
  "is_space c =
     (let n = (of_char c :: nat)
      in (9 \<le> n \<and> n \<le> 13) \<or> (28 \<le> n \<and> n \<le> 32) \<or> n = 133 \<or> n = 160)"

definition strip :: "string \<Rightarrow> string" where
  "strip s = rev (dropWhile is_space (rev (dropWhile is_space s)))"

text \<open>The comprehension \<^verbatim>\<open>[s.strip() for s in value.split(",") if s.strip()]\<close> of
  \<^verbatim>\<open>main\<close>.\<close>

definition split_items :: "string \<Rightarrow> string list" where
  "split_items v = map strip (filter (\<lambda>s. strip s \<noteq> []) (split v CHR '',''))"

text \<open>The namespace that \<^verbatim>\<open>parse_args\<close> returns; \<^verbatim>\<open>type=float\<close> makes the two plot
  dimensions floats.\<close>

record Args =
  args_brief :: string
  args_images :: string
  args_rooms :: string
  args_plot_width :: pyfloat
  args_plot_depth :: pyfloat
  args_slope :: string
  args_climate :: string
  args_orientation :: string
  args_json :: bool

definition main_inputs :: "Args \<Rightarrow> UserInputs" where
  "main_inputs args =
     \<lparr>brief = args_brief args,
      image_descriptions = split_items (args_images args),
      required_rooms = split_items (args_rooms args),
      plot = \<lparr>width_m = PyFloat (args_plot_width args),
               depth_m = PyFloat (args_plot_depth args),
               slope = args_slope args,
               climate = args_climate args,
               orientation = args_orientation args\<rparr>\<rparr>"

section \<open>Structured output\<close>

text \<open>
  \<^verbatim>\<open>asdict(proposal)\<close> is a dictionary of the seven fields in declaration order; a value is
  a string or a list of strings.
\<close>

datatype jvalue = JStr string | JList "string list"

definition asdict :: "DesignProposal \<Rightarrow> jvalue dict" where
  "asdict p =
     [(''selected_style'', JStr (selected_style p)),
      (''style_confidence'', JStr (style_confidence p)),
      (''exterior_finishes'', JList (exterior_finishes p)),
      (''interior_finishes'', JList (interior_finishes p)),
      (''suggested_features'', JList (suggested_features p)),
      (''site_strategy'', JList (site_strategy_f p)),
      (''room_planning_notes'', JList (room_planning_notes_f p))]"

text \<open>
  \<^verbatim>\<open>json.dumps(d, indent=2)\<close> of the standard library, for such a dictionary. A string is
  written by \<^verbatim>\<open>encode_basestring_ascii\<close>: between double quotes, with the quote, the
  backslash and the control characters \<^verbatim>\<open>\b \f \n \r \t\<close> escaped by a backslash, every
  other code point outside \<open>0x20..0x7E\<close> as \<^verbatim>\<open>\u\<close> and four lowercase hexadecimal
  digits.
\<close>

definition hex_digit :: "nat \<Rightarrow> char" where
  "hex_digit d = (if d < 10 then char_of (48 + d) else char_of (87 + d))"

definition hex4 :: "nat \<Rightarrow> string" where
  "hex4 n = [hex_digit (n div 4096 mod 16), hex_digit (n div 256 mod 16),
             hex_digit (n div 16 mod 16), hex_digit (n mod 16)]"

definition escape_char :: "char \<Rightarrow> string" where
  "escape_char c =
     (if c = CHR 0x22 then [CHR 0x5C, CHR 0x22]
      else if c = CHR 0x5C then [CHR 0x5C, CHR 0x5C]
      else if c = CHR 0x0A then [CHR 0x5C, CHR ''n'']
      else if c = CHR 0x0D then [CHR 0x5C, CHR ''r'']
      else if c = CHR 0x09 then [CHR 0x5C, CHR ''t'']
      else if c = CHR 0x08 then [CHR 0x5C, CHR ''b'']
      else if c = CHR 0x0C then [CHR 0x5C, CHR ''f'']
      else if 32 \<le> (of_char c :: nat) \<and> (of_char c :: nat) \<le> 126 then [c]
      else [CHR 0x5C, CHR ''u''] @ hex4 (of_char c))"

definition encode_basestring_ascii :: "string \<Rightarrow> string" where
  "encode_basestring_ascii s = [CHR 0x22] @ concat (map escape_char s) @ [CHR 0x22]"

text \<open>A line break and the indentation of a nesting level, two spaces a level.\<close>

definition newline_indent :: "nat \<Rightarrow> string" where
  "newline_indent level = CHR 0x0A # replicate (2 * level) CHR '' ''"

definition encode_list :: "nat \<Rightarrow> string list \<Rightarrow> string" where
  "encode_list level xs =
     (if xs = [] then ''[]''
      else ''['' @ newline_indent (level + 1) @
           join ('','' @ newline_indent (level + 1)) (map encode_basestring_ascii xs) @
           newline_indent level @ '']'')"

fun encode_value :: "nat \<Rightarrow> jvalue \<Rightarrow> string" where
  "encode_value level (JStr s) = encode_basestring_ascii s"
| "encode_value level (JList xs) = encode_list level xs"

text \<open>One member of an object: the key, a colon and a blank, the value.\<close>

definition encode_item :: "nat \<Rightarrow> string \<times> jvalue \<Rightarrow> string" where
  "encode_item level = (\<lambda>(k, v). encode_basestring_ascii k @ '': '' @ encode_value level v)"

definition encode_dict :: "nat \<Rightarrow> jvalue dict \<Rightarrow> string" where
  "encode_dict level d =
     (if d = [] then ''{}''
      else ''{'' @ newline_indent (level + 1) @
           join ('','' @ newline_indent (level + 1)) (map (encode_item (level + 1)) d) @
           newline_indent level @ ''}'')"

definition json_dumps :: "jvalue dict \<Rightarrow> string" where
  "json_dumps d = encode_dict 0 d"

text \<open>What \<^verbatim>\<open>main\<close> prints under \<^verbatim>\<open>--json\<close>: the serialization and the line break of
  \<^verbatim>\<open>print\<close>.\<close>

definition main_json :: "Args \<Rightarrow> py_error + string" where
  "main_json args =
     (case propose (main_inputs args) of
        Inl e \<Rightarrow> Inl e
      | Inr proposal \<Rightarrow> Inr (json_dumps (asdict proposal) @ [CHR 0x0A]))"

section \<open>Reading the structured output back\<close>

text \<open>
  The program never reads its output. The reader below is \<^verbatim>\<open>json.loads\<close> of the standard
  library on the documents whose top level is an object with string and list-of-strings
  members (anything else is \<open>None\<close>, as is an escape for a code point from 256 on, which is
  outside the modelled characters): whitespace is blank, tab, line feed and carriage return;
  a string ends at the first unescaped quote, may not hold a raw control character, and knows
  the escapes \<^verbatim>\<open>\" \\ \/ \b \f \n \r \t\<close> and \<^verbatim>\<open>\uXXXX\<close> with hexadecimal digits of either
  case.
\<close>

definition is_ws :: "char \<Rightarrow> bool" where
  "is_ws c = (c = CHR '' '' \<or> c = CHR 0x09 \<or> c = CHR 0x0A \<or> c = CHR 0x0D)"

definition skip_ws :: "string \<Rightarrow> string" where
  "skip_ws t = dropWhile is_ws t"

definition hex_value :: "char \<Rightarrow> nat option" where
  "hex_value c =
     (let n = (of_char c :: nat)
      in if 48 \<le> n \<and> n \<le> 57 then Some (n - 48)
         else if 97 \<le> n \<and> n \<le> 102 then Some (n - 87)
         else if 65 \<le> n \<and> n \<le> 70 then Some (n - 55)
         else None)"

definition decode_uXXXX :: "char \<Rightarrow> char \<Rightarrow> char \<Rightarrow> char \<Rightarrow> nat option" where
  "decode_uXXXX a b c d =
     (case (hex_value a, hex_value b, hex_value c, hex_value d) of
        (Some x, Some y, Some z, Some w) \<Rightarrow> Some (4096 * x + 256 * y + 16 * z + w)
      | _ \<Rightarrow> None)"

definition unescape :: "char \<Rightarrow> char option" where
  "unescape e =
     (if e = CHR 0x22 then Some (CHR 0x22)
      else if e = CHR 0x5C then Some (CHR 0x5C)
      else if e = CHR ''/'' then Some (CHR ''/'')
      else if e = CHR ''b'' then Some (CHR 0x08)
      else if e = CHR ''f'' then Some (CHR 0x0C)
      else if e = CHR ''n'' then Some (CHR 0x0A)
      else if e = CHR ''r'' then Some (CHR 0x0D)
      else if e = CHR ''t'' then Some (CHR 0x09)
      else None)"

text \<open>\<^verbatim>\<open>scanstring\<close>, from the character after the opening quote: the string and the
  text after its closing quote.\<close>

fun scanstring :: "string \<Rightarrow> (string \<times> string) option" where
  "scanstring [] = None"
| "scanstring (c # cs) =
     (if c = CHR 0x22 then Some ([], cs)
      else if c = CHR 0x5C then
        (case cs of
           [] \<Rightarrow> None
         | e # cs' \<Rightarrow>
             if e = CHR ''u'' then
               (case cs' of
                  h1 # h2 # h3 # h4 # rest \<Rightarrow>
                    (case decode_uXXXX h1 h2 h3 h4 of
                       None \<Rightarrow> None
                     | Some n \<Rightarrow>
                         if n < 256 then
                           (case scanstring rest of
                              None \<Rightarrow> None
                            | Some (s, r) \<Rightarrow> Some (char_of n # s, r))
                         else None)
                | _ \<Rightarrow> None)
             else
               (case unescape e of
                  None \<Rightarrow> None
                | Some ch \<Rightarrow>
                    (case scanstring cs' of
                       None \<Rightarrow> None
                     | Some (s, r) \<Rightarrow> Some (ch # s, r))))
      else if (of_char c :: nat) < 32 then None
      else (case scanstring cs of
              None \<Rightarrow> None
            | Some (s, r) \<Rightarrow> Some (c # s, r)))"

lemma scanstring_shorter: "scanstring t = Some (s, r) \<Longrightarrow> length r < length t"
  by (induction t arbitrary: s r rule: scanstring.induct)
     (fastforce split: if_splits list.splits option.splits)+

lemma skip_ws_length: "length (skip_ws t) \<le> length t"
  by (simp add: skip_ws_def length_dropWhile_le)

text \<open>\<^verbatim>\<open>JSONArray\<close>: the items of a list of strings, from the opening quote of an item.\<close>

function parse_items :: "string \<Rightarrow> (string list \<times> string) option" where
  "parse_items t =
     (case t of
        [] \<Rightarrow> None
      | q # t1 \<Rightarrow>
          if q \<noteq> CHR 0x22 then None
          else
            (case scanstring t1 of
               None \<Rightarrow> None
             | Some (s, t2) \<Rightarrow>
                 (case skip_ws t2 of
                    [] \<Rightarrow> None
                  | c # t3 \<Rightarrow>
                      if c = CHR '']'' then Some ([s], t3)
                      else if c = CHR '','' then
                        (case parse_items (skip_ws t3) of
                           None \<Rightarrow> None
                         | Some (ss, r) \<Rightarrow> Some (s # ss, r))
                      else None)))"
  by pat_completeness auto
termination
proof (relation "measure length", goal_cases)
  case 1
  then show ?case by simp
next
  case (2 t q t1 x2 s t2 c t3)
  have "scanstring t1 = Some (s, t2)" using 2 by simp
  then have "length t2 < length t1" by (rule scanstring_shorter)
  moreover have "length (c # t3) \<le> length t2" using 2 skip_ws_length [of t2] by simp
  moreover have "length (skip_ws t3) \<le> length t3" by (rule skip_ws_length)
  ultimately show ?case using 2 by simp
qed


definition parse_array :: "string \<Rightarrow> (string list \<times> string) option" where
  "parse_array t =
     (case skip_ws t of
        [] \<Rightarrow> None
      | c # t' \<Rightarrow> if c = CHR '']'' then Some ([], t') else parse_items (c # t'))"

definition parse_value :: "string \<Rightarrow> (jvalue \<times> string) option" where
  "parse_value t =
     (case t of
        [] \<Rightarrow> None
      | c # t' \<Rightarrow>
          if c = CHR 0x22 then
            (case scanstring t' of None \<Rightarrow> None | Some (s, r) \<Rightarrow> Some (JStr s, r))
          else if c = CHR ''['' then
            (case parse_array t' of None \<Rightarrow> None | Some (xs, r) \<Rightarrow> Some (JList xs, r))
          else None)"

lemma parse_items_shorter: "parse_items t = Some (xs, r) \<Longrightarrow> length r < length t"
proof (induction "length t" arbitrary: t xs r rule: less_induct)
  case less
  note prems = less.prems
  show ?case
  proof (cases t)
    case Nil
    with prems show ?thesis by (simp add: parse_items.simps [of "[]"])
  next
    case (Cons q t1)
    from prems Cons have q: "q = CHR 0x22"
      by (simp add: parse_items.simps [of "q # t1"] split: if_splits)
    from prems Cons q obtain s t2 where sc: "scanstring t1 = Some (s, t2)"
      by (auto simp: parse_items.simps [of "q # t1"] split: option.splits)
    have l1: "length t2 < length t1" using sc by (rule scanstring_shorter)
    from prems Cons q sc obtain c t3 where sk: "skip_ws t2 = c # t3"
      by (auto simp: parse_items.simps [of "q # t1"] split: list.splits)
    have l2: "length (c # t3) \<le> length t2" using sk skip_ws_length [of t2] by simp
    show ?thesis
    proof (cases "c = CHR '']''")
      case True
      with prems Cons q sc sk have "r = t3"
        by (simp add: parse_items.simps [of "q # t1"])
      with l1 l2 Cons show ?thesis by simp
    next
      case False
      with prems Cons q sc sk have c: "c = CHR '',''"
        by (simp add: parse_items.simps [of "q # t1"] split: if_splits)
      with prems Cons q sc sk False obtain ss where
        rec: "parse_items (skip_ws t3) = Some (ss, r)"
        by (auto simp: parse_items.simps [of "q # t1"] split: option.splits)
      have "length (skip_ws t3) < length t"
        using skip_ws_length [of t3] l1 l2 Cons by simp
      from less.hyps [OF this rec] this show ?thesis by simp
    qed
  qed
qed

lemma parse_array_shorter: "parse_array t = Some (xs, r) \<Longrightarrow> length r < length t"
proof -
  assume a: "parse_array t = Some (xs, r)"
  then obtain c t' where sk: "skip_ws t = c # t'"
    by (auto simp: parse_array_def split: list.splits)
  have l: "length (c # t') \<le> length t" using sk skip_ws_length [of t] by simp
  show ?thesis
  proof (cases "c = CHR '']''")
    case True
    with a sk have "r = t'" by (simp add: parse_array_def)
    with l show ?thesis by simp
  next
    case False
    with a sk have "parse_items (c # t') = Some (xs, r)" by (simp add: parse_array_def)
    from parse_items_shorter [OF this] l show ?thesis by simp
  qed
qed

lemma parse_value_shorter: "parse_value t = Some (v, r) \<Longrightarrow> length r < length t"
proof (cases t)
  case Nil
  assume "parse_value t = Some (v, r)"
  with Nil show ?thesis by (simp add: parse_value_def)
next
  case (Cons c t')
  assume a: "parse_value t = Some (v, r)"
  show ?thesis
  proof (cases "c = CHR 0x22")
    case True
    with a Cons obtain s where "scanstring t' = Some (s, r)"
      by (auto simp: parse_value_def split: option.splits)
    from scanstring_shorter [OF this] Cons show ?thesis by simp
  next
    case False
    with a Cons have b: "c = CHR ''[''"
      by (simp add: parse_value_def split: if_splits)
    with a Cons False obtain xs where "parse_array t' = Some (xs, r)"
      by (auto simp: parse_value_def split: option.splits)
    from parse_array_shorter [OF this] Cons show ?thesis by simp
  qed
qed


text \<open>\<^verbatim>\<open>JSONObject\<close>: the members of an object, from the opening quote of a key.\<close>

function parse_members :: "string \<Rightarrow> ((string \<times> jvalue) list \<times> string) option" where
  "parse_members t =
     (case t of
        [] \<Rightarrow> None
      | q # t1 \<Rightarrow>
          if q \<noteq> CHR 0x22 then None
          else
            (case scanstring t1 of
               None \<Rightarrow> None
             | Some (k, t2) \<Rightarrow>
                 (case skip_ws t2 of
                    [] \<Rightarrow> None
                  | c # t3 \<Rightarrow>
                      if c \<noteq> CHR '':'' then None
                      else
                        (case parse_value (skip_ws t3) of
                           None \<Rightarrow> None
                         | Some (v, t4) \<Rightarrow>
                             (case skip_ws t4 of
                                [] \<Rightarrow> None
                              | d # t5 \<Rightarrow>
                                  if d = CHR ''}'' then Some ([(k, v)], t5)
                                  else if d = CHR '','' then
                                    (case parse_members (skip_ws t5) of
                                       None \<Rightarrow> None
                                     | Some (kvs, r) \<Rightarrow> Some ((k, v) # kvs, r))
                                  else None)))))"
  by pat_completeness auto
termination
proof (relation "measure length", goal_cases)
  case 1
  then show ?case by simp
next
  case (2 t q t1 x2 k t2 c t3 x2' v t4 d t5)
  have "scanstring t1 = Some (k, t2)" using 2 by simp
  then have "length t2 < length t1" by (rule scanstring_shorter)
  moreover have "length (c # t3) \<le> length t2" using 2 skip_ws_length [of t2] by simp
  moreover have "length (skip_ws t3) \<le> length t3" by (rule skip_ws_length)
  moreover have "parse_value (skip_ws t3) = Some (v, t4)" using 2 by simp
  then have "length t4 < length (skip_ws t3)" by (rule parse_value_shorter)
  moreover have "length (d # t5) \<le> length t4" using 2 skip_ws_length [of t4] by simp
  moreover have "length (skip_ws t5) \<le> length t5" by (rule skip_ws_length)
  ultimately show ?case using 2 by simp
qed

definition parse_object :: "string \<Rightarrow> ((string \<times> jvalue) list \<times> string) option" where
  "parse_object t =
     (case skip_ws t of
        [] \<Rightarrow> None
      | c # t' \<Rightarrow> if c = CHR ''}'' then Some ([], t') else parse_members (c # t'))"

text \<open>\<^verbatim>\<open>dict(pairs)\<close>: a key that comes again overwrites the value in place.\<close>

fun dict_of_pairs :: "(string \<times> 'v) list \<Rightarrow> 'v dict \<Rightarrow> 'v dict" where
  "dict_of_pairs [] d = d"
| "dict_of_pairs ((k, v) # kvs) d = dict_of_pairs kvs (dict_set d k v)"

definition json_loads :: "string \<Rightarrow> (jvalue dict) option" where
  "json_loads text =
     (case skip_ws text of
        [] \<Rightarrow> None
      | c # t \<Rightarrow>
          if c \<noteq> CHR ''{'' then None
          else
            (case parse_object t of
               None \<Rightarrow> None
             | Some (pairs, r) \<Rightarrow>
                 if skip_ws r = [] then Some (dict_of_pairs pairs []) else None))"

text \<open>\<^verbatim>\<open>DesignProposal(**d)\<close>: the record of a dictionary that has exactly the seven fields,
  two strings and five lists of strings.\<close>

definition from_dict :: "jvalue dict \<Rightarrow> DesignProposal option" where
  "from_dict d =
     (case (dict_get d ''selected_style'', dict_get d ''style_confidence'',
            dict_get d ''exterior_finishes'', dict_get d ''interior_finishes'',
            dict_get d ''suggested_features'', dict_get d ''site_strategy'',
            dict_get d ''room_planning_notes'') of
        (Inr (JStr a), Inr (JStr b), Inr (JList c), Inr (JList e), Inr (JList f),
         Inr (JList g), Inr (JList h)) \<Rightarrow>
          if length d = 7
          then Some \<lparr>selected_style = a, style_confidence = b, exterior_finishes = c,
                     interior_finishes = e, suggested_features = f, site_strategy_f = g,
                     room_planning_notes_f = h\<rparr>
          else None
      | _ \<Rightarrow> None)"

section \<open>The keyword-hit score as the specification words it\<close>

text \<open>The number of keywords of a style that occur as contiguous substrings of the text;
  a keyword that occurs several times is one element of the set.\<close>

definition keyword_hits :: "string list \<Rightarrow> string \<Rightarrow> nat" where
  "keyword_hits keywords text = card {k \<in> set keywords. sublist k text}"

text \<open>The score of the style at position \<open>j\<close> of the table.\<close>

definition style_hits :: "nat \<Rightarrow> string \<Rightarrow> nat" where
  "style_hits j text = keyword_hits (snd (STYLE_KEYWORDS ! j)) text"

text \<open>The dictionary of all six scores, in table order.\<close>

definition score_table :: "string \<Rightarrow> int dict" where
  "score_table text = map (\<lambda>(style, keywords). (style, int (keyword_hits keywords text))) STYLE_KEYWORDS"

section \<open>Properties of style inference\<close>

lemma starts_with_prefix: "starts_with k t = prefix k t"
  by (induction k t rule: starts_with.induct) auto

lemma contains_sublist: "contains k t = sublist k t"
  by (induction t) (auto simp: starts_with_prefix sublist_Cons_right)

lemma dict_get_append_hit:
  "s \<notin> fst ` set done \<Longrightarrow> dict_get (done @ (s, v) # r) s = Inr v"
  by (induction "done") auto

lemma dict_set_append_hit:
  "s \<notin> fst ` set done \<Longrightarrow> dict_set (done @ (s, v) # r) s v' = done @ (s, v') # r"
  by (induction "done") auto

lemma count_keywords_append:
  "s \<notin> fst ` set done \<Longrightarrow>
   count_keywords c s ks (done @ (s, v) # r) =
     Inr (done @ (s, v + int (length (filter (\<lambda>k. contains k c) ks))) # r)"
  by (induction ks arbitrary: v)
     (simp_all add: dict_incr_def dict_get_append_hit dict_set_append_hit)

lemma score_styles_append:
  "distinct (map fst items) \<Longrightarrow> fst ` set done \<inter> fst ` set items = {} \<Longrightarrow>
   score_styles c items (done @ map (\<lambda>(style, keywords). (style, 0)) items) =
     Inr (done @ map (\<lambda>(style, keywords). (style, int (length (filter (\<lambda>k. contains k c) keywords)))) items)"
proof (induction items arbitrary: "done")
  case Nil
  then show ?case by simp
next
  case (Cons it items)
  obtain s ks where it: "it = (s, ks)" by (cases it)
  from Cons.prems have notin: "s \<notin> fst ` set done" by (auto simp: it)
  let ?n = "int (length (filter (\<lambda>k. contains k c) ks))"
  have d: "distinct (map fst items)" using Cons.prems by simp
  have disj: "fst ` set (done @ [(s, ?n)]) \<inter> fst ` set items = {}"
    using Cons.prems by (auto simp: it)
  show ?case
    using Cons.IH [OF d disj] by (simp add: it count_keywords_append [OF notin])
qed

lemma max_from_split:
  "(max_from b bv d = b \<and> (\<forall>x \<in> set d. snd x \<le> bv)) \<or>
   (\<exists>pre v post. d = pre @ (max_from b bv d, v) # post \<and> bv < v \<and>
      (\<forall>x \<in> set pre. snd x < v) \<and> (\<forall>x \<in> set post. snd x \<le> v))"
proof (induction b bv d rule: max_from.induct)
  case (1 best bestv)
  then show ?case by simp
next
  case (2 best bestv k v d)
  show ?case
  proof (cases "v > bestv")
    case True
    from 2(1) [OF True] show ?thesis
    proof
      assume a: "max_from k v d = k \<and> (\<forall>x \<in> set d. snd x \<le> v)"
      have "(k, v) # d = [] @ (max_from best bestv ((k, v) # d), v) # d"
        using True a by simp
      with a True show ?thesis by (intro disjI2 exI conjI) (assumption, auto)
    next
      assume "\<exists>pre v' post. d = pre @ (max_from k v d, v') # post \<and> v < v' \<and>
         (\<forall>x \<in> set pre. snd x < v') \<and> (\<forall>x \<in> set post. snd x \<le> v')"
      then obtain pre v' post where p: "d = pre @ (max_from k v d, v') # post" "v < v'"
         "\<forall>x \<in> set pre. snd x < v'" "\<forall>x \<in> set post. snd x \<le> v'" by blast
      have "(k, v) # d = ((k, v) # pre) @ (max_from best bestv ((k, v) # d), v') # post"
        using True p(1) by simp
      moreover have "bestv < v'" using True p(2) by simp
      moreover have "\<forall>x \<in> set ((k, v) # pre). snd x < v'" using p by simp
      ultimately show ?thesis using p(4) by blast
    qed
  next
    case False
    from 2(2) [OF False] show ?thesis
    proof
      assume a: "max_from best bestv d = best \<and> (\<forall>x \<in> set d. snd x \<le> bestv)"
      then show ?thesis using False by simp
    next
      assume "\<exists>pre v' post. d = pre @ (max_from best bestv d, v') # post \<and> bestv < v' \<and>
         (\<forall>x \<in> set pre. snd x < v') \<and> (\<forall>x \<in> set post. snd x \<le> v')"
      then obtain pre v' post where p: "d = pre @ (max_from best bestv d, v') # post" "bestv < v'"
         "\<forall>x \<in> set pre. snd x < v'" "\<forall>x \<in> set post. snd x \<le> v'" by blast
      have "(k, v) # d = ((k, v) # pre) @ (max_from best bestv ((k, v) # d), v') # post"
        using False p(1) by simp
      moreover have "\<forall>x \<in> set ((k, v) # pre). snd x < v'" using p False by simp
      ultimately show ?thesis using p(2,4) by blast
    qed
  qed
qed

lemma max_by_value_split:
  "d \<noteq> [] \<Longrightarrow> \<exists>pre s v post. max_by_value d = Inr s \<and> d = pre @ (s, v) # post \<and>
      (\<forall>x \<in> set pre. snd x < v) \<and> (\<forall>x \<in> set post. snd x \<le> v)"
proof (cases d)
  case Nil
  assume "d \<noteq> []" with Nil show ?thesis by simp
next
  case (Cons kv d')
  obtain k v where kv: "kv = (k, v)" by (cases kv)
  from max_from_split [of k v d'] show ?thesis
  proof
    assume a: "max_from k v d' = k \<and> (\<forall>x \<in> set d'. snd x \<le> v)"
    have "d = [] @ (k, v) # d'" by (simp add: Cons kv)
    moreover have "max_by_value d = Inr k" using a by (simp add: Cons kv)
    moreover have "\<forall>x \<in> set []. snd x < v" by simp
    ultimately show ?thesis using a by blast
  next
    assume "\<exists>pre v' post. d' = pre @ (max_from k v d', v') # post \<and> v < v' \<and>
      (\<forall>x \<in> set pre. snd x < v') \<and> (\<forall>x \<in> set post. snd x \<le> v')"
    then obtain pre v' post where p: "d' = pre @ (max_from k v d', v') # post" "v < v'"
         "\<forall>x \<in> set pre. snd x < v'" "\<forall>x \<in> set post. snd x \<le> v'" by blast
    have "d = ((k, v) # pre) @ (max_from k v d', v') # post" using p(1) by (simp add: Cons kv)
    moreover have "\<forall>x \<in> set ((k, v) # pre). snd x < v'" using p by simp
    moreover have "max_by_value d = Inr (max_from k v d')" by (simp add: Cons kv)
    ultimately show ?thesis using p(4) by blast
  qed
qed

lemma keyword_hits_filter:
  "distinct ks \<Longrightarrow> keyword_hits ks t = length (filter (\<lambda>k. contains k t) ks)"
proof -
  assume d: "distinct ks"
  have "card (set (filter (\<lambda>k. contains k t) ks)) = length (filter (\<lambda>k. contains k t) ks)"
    using d by (intro distinct_card) simp
  then show ?thesis
    by (simp add: keyword_hits_def contains_sublist)
qed

lemma style_names: "map fst STYLE_KEYWORDS =
    [''modern'', ''farmhouse'', ''contemporary'', ''traditional'', ''coastal'', ''craftsman'']"
  by (simp add: STYLE_KEYWORDS_def)

lemma style_names_distinct: "distinct (map fst STYLE_KEYWORDS)"
  unfolding style_names by simp

lemma keywords_distinct: "(s, ks) \<in> set STYLE_KEYWORDS \<Longrightarrow> distinct ks"
  unfolding STYLE_KEYWORDS_def by auto

lemma scores_filter:
  "infer_style_scores b i =
     Inr (map (\<lambda>(style, keywords).
            (style, int (length (filter (\<lambda>k. contains k (combined_text b i)) keywords))))
          STYLE_KEYWORDS)"
  using score_styles_append [of STYLE_KEYWORDS "[]" "combined_text b i"] style_names_distinct
  by (simp add: infer_style_scores_def)

lemma scores_hits:
  "infer_style_scores b i =
     Inr (map (\<lambda>(style, keywords). (style, int (keyword_hits keywords (combined_text b i))))
          STYLE_KEYWORDS)"
proof -
  have "map (\<lambda>(style, keywords).
            (style, int (length (filter (\<lambda>k. contains k (combined_text b i)) keywords))))
          STYLE_KEYWORDS =
        map (\<lambda>(style, keywords). (style, int (keyword_hits keywords (combined_text b i))))
          STYLE_KEYWORDS"
    by (rule map_cong) (auto simp: keyword_hits_filter keywords_distinct)
  then show ?thesis by (simp add: scores_filter)
qed

text \<open>
  Claim C3. The score that \<^verbatim>\<open>infer_style\<close> computes for a style is the number of the
  style's keywords that occur as contiguous substrings of the lowercased text
  \<^verbatim>\<open>brief + " " + " ".join(image_descriptions)\<close>; a keyword counts once however often it
  occurs, and no word boundary is asked for.
\<close>
theorem infer_style_scores_count:
  "infer_style_scores b imgs =
     Inr (map (\<lambda>(style, keywords).
            (style, int (keyword_hits keywords (lower (b @ '' '' @ join '' '' imgs)))))
          STYLE_KEYWORDS)"
  using scores_hits [of b imgs] by (simp add: combined_text_def)


lemma dict_get_split:
  "distinct (map fst (pre @ (s, v) # post)) \<Longrightarrow> dict_get (pre @ (s, v) # post) s = Inr v"
  by (rule dict_get_append_hit) auto

lemma score_table_keys: "map fst (score_table text) = map fst STYLE_KEYWORDS"
  by (simp add: score_table_def case_prod_unfold comp_def)

lemma score_table_length: "length (score_table text) = length STYLE_KEYWORDS"
  by (simp add: score_table_def)

lemma score_table_nth:
  "j < length STYLE_KEYWORDS \<Longrightarrow>
   score_table text ! j = (fst (STYLE_KEYWORDS ! j), int (style_hits j text))"
  by (simp add: score_table_def style_hits_def case_prod_unfold)

lemma infer_style_split:
  "\<exists>pre s v post. score_table (combined_text b i) = pre @ (s, v) # post \<and>
      (\<forall>x \<in> set pre. snd x < v) \<and> (\<forall>x \<in> set post. snd x \<le> v) \<and>
      infer_style b i = Inr (if v = 0 then ''contemporary'' else s)"
proof -
  let ?sc = "score_table (combined_text b i)"
  have sc: "infer_style_scores b i = Inr ?sc"
    by (simp add: scores_hits score_table_def)
  have "?sc \<noteq> []" by (simp add: score_table_def STYLE_KEYWORDS_def)
  from max_by_value_split [OF this] obtain pre s v post where
    p: "max_by_value ?sc = Inr s" "?sc = pre @ (s, v) # post"
       "\<forall>x \<in> set pre. snd x < v" "\<forall>x \<in> set post. snd x \<le> v" by blast
  have "distinct (map fst ?sc)"
    by (simp only: score_table_keys style_names_distinct)
  then have "dict_get ?sc s = Inr v"
    using dict_get_split [of pre s v post] p(2) by simp
  then have "infer_style b i = Inr (if v = 0 then ''contemporary'' else s)"
    using sc p(1) by (simp add: infer_style_def)
  with p(2,3,4) show ?thesis by blast
qed

lemma infer_style_index:
  "\<exists>m < length STYLE_KEYWORDS.
      (\<forall>j < length STYLE_KEYWORDS. style_hits j (combined_text b i) \<le> style_hits m (combined_text b i)) \<and>
      (\<forall>j < m. style_hits j (combined_text b i) < style_hits m (combined_text b i)) \<and>
      infer_style b i =
        Inr (if style_hits m (combined_text b i) = 0 then ''contemporary'' else fst (STYLE_KEYWORDS ! m))"
proof -
  let ?t = "combined_text b i"
  let ?sc = "score_table ?t"
  from infer_style_split [of b i] obtain pre s v post where
    p: "?sc = pre @ (s, v) # post"
       "\<forall>x \<in> set pre. snd x < v" "\<forall>x \<in> set post. snd x \<le> v"
       "infer_style b i = Inr (if v = 0 then ''contemporary'' else s)" by blast
  let ?m = "length pre"
  have len: "length STYLE_KEYWORDS = length pre + Suc (length post)"
    using p(1) score_table_length [of ?t] by (metis length_append length_Cons)
  then have m: "?m < length STYLE_KEYWORDS" by simp
  have at_m: "?sc ! ?m = (s, v)" using p(1) by simp
  then have sv: "s = fst (STYLE_KEYWORDS ! ?m)" "v = int (style_hits ?m ?t)"
    using score_table_nth [OF m, of ?t] by simp_all
  have before: "style_hits j ?t < style_hits ?m ?t" if "j < ?m" for j
  proof -
    have "?sc ! j = pre ! j" using that p(1) by (simp add: nth_append)
    moreover have "pre ! j \<in> set pre" using that by simp
    moreover have "j < length STYLE_KEYWORDS" using that m by simp
    ultimately have "int (style_hits j ?t) < v"
      using p(2) score_table_nth [of j ?t] by (metis snd_conv)
    then show ?thesis using sv(2) by simp
  qed
  have after: "style_hits j ?t \<le> style_hits ?m ?t" if "?m < j" "j < length STYLE_KEYWORDS" for j
  proof -
    have "?sc ! j = post ! (j - Suc ?m)"
      using that p(1) by (simp add: nth_append nth_Cons')
    moreover have "post ! (j - Suc ?m) \<in> set post" using that len by simp
    ultimately have "int (style_hits j ?t) \<le> v"
      using p(3) score_table_nth [OF that(2), of ?t] by (metis snd_conv)
    then show ?thesis using sv(2) by simp
  qed
  have all: "style_hits j ?t \<le> style_hits ?m ?t" if "j < length STYLE_KEYWORDS" for j
    using before [of j] after [of j] that by (cases "j < ?m"; cases "j = ?m") auto
  have "infer_style b i =
        Inr (if style_hits ?m ?t = 0 then ''contemporary'' else fst (STYLE_KEYWORDS ! ?m))"
    using p(4) sv by simp
  with m all before show ?thesis by blast
qed


lemma keyword_hits_zero:
  "(\<forall>k \<in> set ks. \<not> sublist k t) \<Longrightarrow> keyword_hits ks t = 0"
  unfolding keyword_hits_def by auto

text \<open>
  Claim C2. When the lowercased combined text contains no keyword of any of the six styles,
  \<^verbatim>\<open>infer_style\<close> returns the default \<^verbatim>\<open>"contemporary"\<close>.
\<close>
theorem infer_style_default:
  assumes "\<forall>(style, keywords) \<in> set STYLE_KEYWORDS. \<forall>k \<in> set keywords.
             \<not> sublist k (lower (b @ '' '' @ join '' '' imgs))"
  shows "infer_style b imgs = Inr ''contemporary''"
proof -
  let ?t = "combined_text b imgs"
  have zero: "style_hits j ?t = 0" if "j < length STYLE_KEYWORDS" for j
  proof -
    have "STYLE_KEYWORDS ! j \<in> set STYLE_KEYWORDS" using that by simp
    then have "\<forall>k \<in> set (snd (STYLE_KEYWORDS ! j)). \<not> sublist k ?t"
      using assms by (auto simp: combined_text_def)
    then show ?thesis by (simp add: style_hits_def keyword_hits_zero)
  qed
  from infer_style_index [of b imgs] zero show ?thesis by auto
qed

theorem infer_style_default_witness:
  "infer_style ''A Quiet House'' [''garden'', ''Red door''] = Inr ''contemporary''"
proof -
  have h: "\<forall>(style, keywords) \<in> set STYLE_KEYWORDS. \<forall>k \<in> set keywords.
      \<not> sublist k (lower (''A Quiet House'' @ '' '' @ join '' '' [''garden'', ''Red door'']))"
    by code_simp
  from infer_style_default [OF h] show ?thesis .
qed



section \<open>Properties of the site strategy notes\<close>

lemma round_half_even_twice:
  "\<bar>2 * int m - 2 * int (round_half_even m k) * 2 ^ k\<bar> \<le> 2 ^ k"
proof -
  define P where "P = (2::nat) ^ k"
  define q where "q = m div P"
  define r where "r = m mod P"
  have P: "0 < P" by (simp add: P_def)
  have m: "m = q * P + r" by (simp add: q_def r_def)
  have r: "r < P" using P by (simp add: r_def)
  have pk: "(2::int) ^ k = int P" by (simp add: P_def)
  show ?thesis
  proof (cases "P < 2 * r \<or> (2 * r = P \<and> odd q)")
    case True
    then have n: "round_half_even m k = q + 1"
      by (simp add: round_half_even_def Let_def P_def q_def r_def)
    have "2 * int (q + 1) * int P - 2 * int m = 2 * int P - 2 * int r"
      by (simp add: m algebra_simps)
    moreover have "int P \<le> 2 * int r" using True by auto
    moreover have "int r < int P" using r by simp
    ultimately show ?thesis unfolding n pk by linarith
  next
    case False
    then have n: "round_half_even m k = q"
      by (simp add: round_half_even_def Let_def P_def q_def r_def)
    have "2 * int m - 2 * int q * int P = 2 * int r"
      by (simp add: m algebra_simps)
    moreover have "2 * int r \<le> int P" using False by auto
    ultimately show ?thesis unfolding n pk by linarith
  qed
qed

lemma round_half_even_tie:
  assumes "\<bar>2 * int m - 2 * int (round_half_even m k) * 2 ^ k\<bar> = 2 ^ k"
  shows "even (round_half_even m k)"
proof -
  define P where "P = (2::nat) ^ k"
  define q where "q = m div P"
  define r where "r = m mod P"
  have P: "0 < P" by (simp add: P_def)
  have m: "m = q * P + r" by (simp add: q_def r_def)
  have r: "r < P" using P by (simp add: r_def)
  have pk: "(2::int) ^ k = int P" by (simp add: P_def)
  show ?thesis
  proof (cases "P < 2 * r \<or> (2 * r = P \<and> odd q)")
    case True
    then have n: "round_half_even m k = q + 1"
      by (simp add: round_half_even_def Let_def P_def q_def r_def)
    have "2 * int m - 2 * int (q + 1) * int P = 2 * int r - 2 * int P"
      by (simp add: m algebra_simps)
    moreover have "int r < int P" using r by simp
    ultimately have "2 * int r = int P" using assms unfolding n pk by linarith
    then have "2 * r = P" by linarith
    with True have "odd q" by simp
    then show ?thesis unfolding n by simp
  next
    case False
    then have n: "round_half_even m k = q"
      by (simp add: round_half_even_def Let_def P_def q_def r_def)
    have "2 * int m - 2 * int q * int P = 2 * int r"
      by (simp add: m algebra_simps)
    then have "2 * int r = int P" using assms unfolding n pk by linarith
    then have "2 * r = P" by linarith
    with False have "even q" by simp
    then show ?thesis unfolding n .
  qed
qed

lemma half_distance_scaled:
  "\<bar>real m / 2 ^ k - real n\<bar> = real_of_int \<bar>2 * int m - 2 * int n * 2 ^ k\<bar> / (2 * 2 ^ k)"
proof -
  have "real_of_int \<bar>2 * int m - 2 * int n * 2 ^ k\<bar> / (2 * 2 ^ k)
      = \<bar>(2 * real m - 2 * real n * 2 ^ k) / (2 * 2 ^ k)\<bar>" by simp
  also have "(2 * real m - 2 * real n * 2 ^ k) / (2 * 2 ^ k) = real m / 2 ^ k - real n"
    by (simp add: field_simps)
  finally show ?thesis by simp
qed

lemma round_half_even_nearest:
  "\<bar>real m / 2 ^ k - real (round_half_even m k)\<bar> \<le> 1 / 2"
proof -
  have "real_of_int \<bar>2 * int m - 2 * int (round_half_even m k) * 2 ^ k\<bar> \<le> real_of_int (2 ^ k)"
    using round_half_even_twice [of m k] by (simp only: of_int_le_iff)
  then have "real_of_int \<bar>2 * int m - 2 * int (round_half_even m k) * 2 ^ k\<bar> / (2 * 2 ^ k)
      \<le> real_of_int (2 ^ k) / (2 * 2 ^ k)"
    by (rule divide_right_mono) simp
  then show ?thesis unfolding half_distance_scaled by simp
qed

lemma round_half_even_nearest_tie:
  assumes "\<bar>real m / 2 ^ k - real (round_half_even m k)\<bar> = 1 / 2"
  shows "even (round_half_even m k)"
proof -
  let ?d = "\<bar>2 * int m - 2 * int (round_half_even m k) * 2 ^ k\<bar>"
  from assms have "real_of_int ?d / (2 * 2 ^ k) = 1 / 2"
    unfolding half_distance_scaled .
  then have "real_of_int ?d = real_of_int (2 ^ k)" by (simp add: field_simps)
  then have "?d = 2 ^ k" by (simp only: of_int_eq_iff)
  then show ?thesis by (rule round_half_even_tie)
qed

lemma format_0f_finite:
  "\<exists>n. \<bar>real m * 2 powi e - real n\<bar> \<le> 1 / 2 \<and>
       (\<bar>real m * 2 powi e - real n\<bar> = 1 / 2 \<longrightarrow> even n) \<and>
       format_0f (Finite s m e) = (if s then ''-'' else '''') @ str_nat n"
proof (cases "0 \<le> e")
  case True
  then have "real m * 2 powi e = real (m * 2 ^ nat e)"
    by (simp add: power_int_def)
  then have z: "\<bar>real m * 2 powi e - real (m * 2 ^ nat e)\<bar> = 0" by (simp only: diff_self abs_zero)
  then have "\<bar>real m * 2 powi e - real (m * 2 ^ nat e)\<bar> \<le> 1 / 2" by (simp only:)
  moreover have "\<bar>real m * 2 powi e - real (m * 2 ^ nat e)\<bar> = 1 / 2 \<longrightarrow> even (m * 2 ^ nat e)"
  proof
    assume "\<bar>real m * 2 powi e - real (m * 2 ^ nat e)\<bar> = 1 / 2"
    with z have "(0::real) = 1 / 2" by (simp only:)
    then show "even (m * 2 ^ nat e)" by simp
  qed
  moreover have "format_0f (Finite s m e) = (if s then ''-'' else '''') @ str_nat (m * 2 ^ nat e)"
    using True by simp
  ultimately show ?thesis by blast
next
  case False
  then have v: "real m * 2 powi e = real m / 2 ^ nat (- e)"
    by (simp add: power_int_def field_simps)
  have "\<bar>real m * 2 powi e - real (round_half_even m (nat (- e)))\<bar> \<le> 1 / 2"
    unfolding v by (rule round_half_even_nearest)
  moreover have "\<bar>real m * 2 powi e - real (round_half_even m (nat (- e)))\<bar> = 1 / 2
      \<longrightarrow> even (round_half_even m (nat (- e)))"
    unfolding v using round_half_even_nearest_tie by blast
  moreover have "format_0f (Finite s m e) =
      (if s then ''-'' else '''') @ str_nat (round_half_even m (nat (- e)))"
    using False by simp
  ultimately show ?thesis by blast
qed

lemma int_to_float_error: "int_to_float n = Inl err \<Longrightarrow> err = OverflowError"
  by (simp add: int_to_float_def split: pyfloat.splits)

lemma to_float_error: "to_float x = Inl err \<Longrightarrow> err = OverflowError"
  by (cases x) (simp_all add: int_to_float_error)

lemma py_mul_error: "py_mul x y = Inl err \<Longrightarrow> err = OverflowError"
  by (cases x; cases y) (auto split: sum.splits dest: int_to_float_error)

lemma site_strategy_ok:
  assumes "py_mul (width_m p) (depth_m p) = Inr area" and "to_float area = Inr a"
  shows "site_strategy p =
     Inr [''Plot area is approximately '' @ format_0f a @ '' m'' @ [CHR 0xB2] @
            ''; reserve 35-45% for landscaped open space.'',
          ''Align main living spaces for '' @ orientation p @
            '' with controlled glazing for daylight comfort.'',
          ''Use a '' @ slope p @
            '' slope strategy: stepped slab and drainage channels if not flat.'',
          ''Specify envelope and shading details suitable for '' @ climate p @ '' climate.'']"
  by (simp add: site_strategy_def format_0f_num_def assms)

lemma site_strategy_ok_first:
  assumes "py_mul (width_m p) (depth_m p) = Inr area" and "to_float area = Inr a"
  shows "\<exists>notes. site_strategy p = Inr notes \<and> length notes = 4 \<and>
     notes ! 0 = ''Plot area is approximately '' @ format_0f a @ '' m'' @ [CHR 0xB2] @
            ''; reserve 35-45% for landscaped open space.''"
  by (simp add: site_strategy_ok [OF assms])

lemma site_strategy_cases:
  "site_strategy p = Inl OverflowError \<or> (\<exists>notes. site_strategy p = Inr notes \<and> length notes = 4)"
proof (cases "py_mul (width_m p) (depth_m p)")
  case (Inl err)
  with py_mul_error [OF Inl] show ?thesis by (simp add: site_strategy_def)
next
  case (Inr area)
  show ?thesis
  proof (cases "to_float area")
    case (Inl err)
    with to_float_error [OF Inl] Inr show ?thesis
      by (simp add: site_strategy_def format_0f_num_def)
  next
    case a: (Inr a)
    from site_strategy_ok_first [OF Inr a] show ?thesis by blast
  qed
qed

lemma site_strategy_float:
  "\<exists>notes. site_strategy (p\<lparr>width_m := PyFloat w, depth_m := PyFloat d\<rparr>) = Inr notes \<and>
     length notes = 4 \<and>
     notes ! 0 = ''Plot area is approximately '' @ format_0f (fmul w d) @ '' m'' @ [CHR 0xB2] @
            ''; reserve 35-45% for landscaped open space.''"
  by (rule site_strategy_ok_first [where area = "PyFloat (fmul w d)"]) simp_all

lemma fmul_15_30: "fmul (Finite False 15 0) (Finite False 30 0) = Finite False 450 0"
  by (simp add: round_to_double_def)

lemma int_to_float_450: "int_to_float 450 = Inr (Finite False 450 0)"
  by (simp add: int_to_float_def round_to_double_def)

lemma format_450: "format_0f (Finite False 450 0) = ''450''"
  by code_simp

lemma contains_450:
  "sublist (''450 m'' @ [CHR 0xB2])
     (''Plot area is approximately '' @ format_0f (Finite False 450 0) @ '' m'' @ [CHR 0xB2] @
            ''; reserve 35-45% for landscaped open space.'')"
proof -
  have "''Plot area is approximately '' @ format_0f (Finite False 450 0) @ '' m'' @ [CHR 0xB2] @
            ''; reserve 35-45% for landscaped open space.'' =
        ''Plot area is approximately '' @ (''450 m'' @ [CHR 0xB2]) @
            ''; reserve 35-45% for landscaped open space.''"
    unfolding format_450 by simp
  then show ?thesis by (simp only: sublist_appendI)
qed

text \<open>
  Claim C6, amended. \<^verbatim>\<open>site_strategy\<close> either raises \<^verbatim>\<open>OverflowError\<close> or returns four
  notes, and it returns four notes whenever both dimensions are floats. Whenever the product
  \<^verbatim>\<open>width_m * depth_m\<close>, converted to float as the format \<^verbatim>\<open>.0f\<close> does, is a finite number
  \<open>(-1)\<^sup>s * m * 2\<^sup>e\<close>, the first note is the fixed sentence around the sign and the decimal
  digits of the natural number \<open>n\<close> nearest to \<open>m * 2\<^sup>e\<close>, the even one of the two when
  \<open>m * 2\<^sup>e\<close> lies half way between them. For the width 15 and the depth 30, as ints or as
  floats, the first note contains \<^verbatim>\<open>450 m\<close> followed by the superscript two. (The claim as
  written, for every plot, fails: the counterexample below is a plot of \<open>2\<^sup>5\<^sup>1\<^sup>2\<close> by
  \<open>2\<^sup>5\<^sup>1\<^sup>2\<close> metres, two floats whose product overflows and whose note reads \<^verbatim>\<open>inf\<close>.)
\<close>
theorem site_strategy_area_note:
  "(site_strategy p = Inl OverflowError \<or>
      (\<exists>notes. site_strategy p = Inr notes \<and> length notes = 4)) \<and>
   (\<exists>notes. site_strategy (p\<lparr>width_m := PyFloat w, depth_m := PyFloat d\<rparr>) = Inr notes \<and>
      length notes = 4) \<and>
   (\<forall>area s m e.
      py_mul (width_m p) (depth_m p) = Inr area \<and> to_float area = Inr (Finite s m e) \<longrightarrow>
      (\<exists>n notes. site_strategy p = Inr notes \<and> length notes = 4 \<and>
         \<bar>real m * 2 powi e - real n\<bar> \<le> 1 / 2 \<and>
         (\<bar>real m * 2 powi e - real n\<bar> = 1 / 2 \<longrightarrow> even n) \<and>
         notes ! 0 =
           ''Plot area is approximately '' @ (if s then ''-'' else '''') @ str_nat n @
           '' m'' @ [CHR 0xB2] @ ''; reserve 35-45% for landscaped open space.'')) \<and>
   (\<exists>notes. site_strategy (p\<lparr>width_m := PyInt 15, depth_m := PyInt 30\<rparr>) = Inr notes \<and>
      sublist (''450 m'' @ [CHR 0xB2]) (notes ! 0)) \<and>
   (\<exists>notes. site_strategy
        (p\<lparr>width_m := PyFloat (Finite False 15 0), depth_m := PyFloat (Finite False 30 0)\<rparr>) =
        Inr notes \<and>
      sublist (''450 m'' @ [CHR 0xB2]) (notes ! 0))"
proof -
  have fl: "\<exists>notes. site_strategy (p\<lparr>width_m := PyFloat w, depth_m := PyFloat d\<rparr>) = Inr notes \<and>
      length notes = 4"
    using site_strategy_float [where p = p and w = w and d = d] by blast
  have fin: "\<exists>n notes. site_strategy p = Inr notes \<and> length notes = 4 \<and>
         \<bar>real m * 2 powi e - real n\<bar> \<le> 1 / 2 \<and>
         (\<bar>real m * 2 powi e - real n\<bar> = 1 / 2 \<longrightarrow> even n) \<and>
         notes ! 0 =
           ''Plot area is approximately '' @ (if s then ''-'' else '''') @ str_nat n @
           '' m'' @ [CHR 0xB2] @ ''; reserve 35-45% for landscaped open space.''"
    if "py_mul (width_m p) (depth_m p) = Inr area \<and> to_float area = Inr (Finite s m e)"
    for area s m e
  proof -
    from that have a: "py_mul (width_m p) (depth_m p) = Inr area"
      and b: "to_float area = Inr (Finite s m e)" by simp_all
    from site_strategy_ok_first [OF a b] obtain ns where
      nt: "site_strategy p = Inr ns" "length ns = 4"
        "ns ! 0 = ''Plot area is approximately '' @ format_0f (Finite s m e) @
           '' m'' @ [CHR 0xB2] @ ''; reserve 35-45% for landscaped open space.''" by blast
    from format_0f_finite [of m e s] obtain n where
      n: "\<bar>real m * 2 powi e - real n\<bar> \<le> 1 / 2"
         "\<bar>real m * 2 powi e - real n\<bar> = 1 / 2 \<longrightarrow> even n"
         "format_0f (Finite s m e) = (if s then ''-'' else '''') @ str_nat n" by blast
    have "ns ! 0 =
           ''Plot area is approximately '' @ ((if s then ''-'' else '''') @ str_nat n) @
           '' m'' @ [CHR 0xB2] @ ''; reserve 35-45% for landscaped open space.''"
      unfolding nt(3) n(3) ..
    then have "ns ! 0 =
           ''Plot area is approximately '' @ (if s then ''-'' else '''') @ str_nat n @
           '' m'' @ [CHR 0xB2] @ ''; reserve 35-45% for landscaped open space.''"
      by (simp only: append_assoc)
    with nt(1,2) n(1,2) show ?thesis by blast
  qed
  have i450: "\<exists>notes. site_strategy (p\<lparr>width_m := PyInt 15, depth_m := PyInt 30\<rparr>) = Inr notes \<and>
      sublist (''450 m'' @ [CHR 0xB2]) (notes ! 0)"
  proof -
    have "\<exists>notes. site_strategy (p\<lparr>width_m := PyInt 15, depth_m := PyInt 30\<rparr>) = Inr notes \<and>
        length notes = 4 \<and>
        notes ! 0 = ''Plot area is approximately '' @ format_0f (Finite False 450 0) @
           '' m'' @ [CHR 0xB2] @ ''; reserve 35-45% for landscaped open space.''"
      by (rule site_strategy_ok_first [where area = "PyInt 450"]) (simp_all add: int_to_float_450)
    with contains_450 show ?thesis by metis
  qed
  have f450: "\<exists>notes. site_strategy
        (p\<lparr>width_m := PyFloat (Finite False 15 0), depth_m := PyFloat (Finite False 30 0)\<rparr>) =
        Inr notes \<and>
      sublist (''450 m'' @ [CHR 0xB2]) (notes ! 0)"
    using site_strategy_float [where p = p and w = "Finite False 15 0" and d = "Finite False 30 0"]
      contains_450
    unfolding fmul_15_30 by metis
  from site_strategy_cases [of p] fl fin i450 f450 show ?thesis by blast
qed

theorem site_strategy_area_note_witness:
  "\<exists>n notes.
      site_strategy \<lparr>width_m = PyFloat (Finite False 5 (- 1)), depth_m = PyInt 1,
        slope = ''flat'', climate = ''temperate'', orientation = ''north-facing street''\<rparr> =
        Inr notes \<and> length notes = 4 \<and>
      \<bar>real 5 * 2 powi (- 1) - real n\<bar> \<le> 1 / 2 \<and>
      even n \<and>
      notes ! 0 =
        ''Plot area is approximately '' @ (if False then ''-'' else '''') @ str_nat n @
        '' m'' @ [CHR 0xB2] @ ''; reserve 35-45% for landscaped open space.''"
proof -
  let ?p = "\<lparr>width_m = PyFloat (Finite False 5 (- 1)), depth_m = PyInt 1,
        slope = ''flat'', climate = ''temperate'', orientation = ''north-facing street''\<rparr>"
  have h: "py_mul (width_m ?p) (depth_m ?p) = Inr (PyFloat (Finite False 5 (- 1))) \<and>
      to_float (PyFloat (Finite False 5 (- 1))) = Inr (Finite False 5 (- 1))"
    by (simp add: int_to_float_def round_to_double_def)
  from site_strategy_area_note [of ?p, THEN conjunct2, THEN conjunct2, THEN conjunct1,
      rule_format, OF h]
  obtain n ns where r: "site_strategy ?p = Inr ns" "length ns = 4"
    "\<bar>real 5 * 2 powi (- 1) - real n\<bar> \<le> 1 / 2"
    "\<bar>real 5 * 2 powi (- 1) - real n\<bar> = 1 / 2 \<longrightarrow> even n"
    "ns ! 0 =
        ''Plot area is approximately '' @ (if False then ''-'' else '''') @ str_nat n @
        '' m'' @ [CHR 0xB2] @ ''; reserve 35-45% for landscaped open space.''" by blast
  have v: "real 5 * 2 powi (- 1) = 5 / 2" by (simp add: power_int_minus)
  from r(3) have "real n \<le> 3" "2 \<le> real n" unfolding v by linarith+
  then have "n \<le> 3" "2 \<le> n" by simp_all
  then have "n = 2 \<or> n = 3" by linarith
  then have "\<bar>real 5 * 2 powi (- 1) - real n\<bar> = 1 / 2" unfolding v by auto
  with r(4) have "even n" by blast
  with r(1,2,3,5) show ?thesis by blast
qed

theorem site_strategy_overflow_counterexample:
  "site_strategy \<lparr>width_m = PyFloat (Finite False 1 512), depth_m = PyFloat (Finite False 1 512),
       slope = ''flat'', climate = ''temperate'', orientation = ''north-facing street''\<rparr> =
     Inr [''Plot area is approximately inf m'' @ [CHR 0xB2] @
            ''; reserve 35-45% for landscaped open space.'',
          ''Align main living spaces for north-facing street with controlled glazing for daylight comfort.'',
          ''Use a flat slope strategy: stepped slab and drainage channels if not flat.'',
          ''Specify envelope and shading details suitable for temperate climate.'']"
  by (simp add: site_strategy_def format_0f_num_def round_to_double_def)

section \<open>Properties of the proposal\<close>

lemma infer_style_name:
  "\<exists>s. infer_style b imgs = Inr s \<and> s \<in> set (map fst STYLE_KEYWORDS)"
proof -
  from infer_style_index [of b imgs] obtain m where
    m: "m < length STYLE_KEYWORDS"
       "infer_style b imgs =
          Inr (if style_hits m (combined_text b imgs) = 0 then ''contemporary''
               else fst (STYLE_KEYWORDS ! m))" by blast
  have "fst (STYLE_KEYWORDS ! m) \<in> set (map fst STYLE_KEYWORDS)"
    using m(1) by (metis length_map nth_map nth_mem)
  moreover have "''contemporary'' \<in> set (map fst STYLE_KEYWORDS)"
    by (simp add: style_names)
  ultimately show ?thesis using m(2) by auto
qed

lemma package_names: "map fst STYLE_PACKAGES = map fst STYLE_KEYWORDS"
  by (simp add: STYLE_PACKAGES_def STYLE_KEYWORDS_def)

lemma packages_shape:
  "list_all (\<lambda>(style, package).
       map fst package = [''exterior'', ''interior'', ''features''] \<and>
       list_all (\<lambda>(name, items). length items = 3) package) STYLE_PACKAGES"
  by (simp add: STYLE_PACKAGES_def)

lemma dict_get_in_keys:
  "k \<in> set (map fst d) \<Longrightarrow> \<exists>v. dict_get d k = Inr v \<and> (k, v) \<in> set d"
proof (induction d)
  case Nil
  then show ?case by simp
next
  case (Cons kv d)
  obtain k' v' where kv: "kv = (k', v')" by (cases kv)
  show ?case
  proof (cases "k' = k")
    case True
    then show ?thesis by (simp add: kv)
  next
    case False
    with Cons.prems have "k \<in> set (map fst d)" by (simp add: kv)
    from Cons.IH [OF this] False show ?thesis by (auto simp: kv)
  qed
qed

lemma package_fields:
  assumes "map fst package = [''exterior'', ''interior'', ''features'']"
    and "list_all (\<lambda>(name, items). length (items :: string list) = 3) package"
  shows "\<exists>ex it fe. dict_get package ''exterior'' = Inr ex \<and>
           dict_get package ''interior'' = Inr it \<and> dict_get package ''features'' = Inr fe \<and>
           length ex = 3 \<and> length it = 3 \<and> length fe = 3"
proof -
  from assms(1) obtain ex it fe where
    p: "package = [(''exterior'', ex), (''interior'', it), (''features'', fe)]"
    by (auto simp: map_eq_Cons_conv)
  with assms(2) show ?thesis by simp
qed

lemma package_lookup:
  assumes "s \<in> set (map fst STYLE_KEYWORDS)"
  shows "\<exists>package ex it fe. dict_get STYLE_PACKAGES s = Inr package \<and>
           dict_get package ''exterior'' = Inr ex \<and>
           dict_get package ''interior'' = Inr it \<and> dict_get package ''features'' = Inr fe \<and>
           length ex = 3 \<and> length it = 3 \<and> length fe = 3"
proof -
  from assms have "s \<in> set (map fst STYLE_PACKAGES)" by (simp only: package_names)
  from dict_get_in_keys [OF this] obtain package where
    g: "dict_get STYLE_PACKAGES s = Inr package" "(s, package) \<in> set STYLE_PACKAGES" by blast
  from g(2) packages_shape have
    "map fst package = [''exterior'', ''interior'', ''features'']"
    "list_all (\<lambda>(name, items). length items = 3) package"
    by (auto simp only: list_all_iff)
  from package_fields [OF this] g(1) show ?thesis by blast
qed

lemma propose_cases:
  "\<exists>style ex it fe.
     infer_style (brief inputs) (image_descriptions inputs) = Inr style \<and>
     style \<in> set (map fst STYLE_PACKAGES) \<and>
     length ex = 3 \<and> length it = 3 \<and> length fe = 3 \<and>
     propose inputs =
       (case site_strategy (plot inputs) of
          Inl e \<Rightarrow> Inl e
        | Inr ns \<Rightarrow>
            Inr \<lparr>selected_style = style,
                 style_confidence =
                   (if image_descriptions inputs \<noteq> [] then ''high'' else ''medium''),
                 exterior_finishes = ex, interior_finishes = it, suggested_features = fe,
                 site_strategy_f = ns,
                 room_planning_notes_f = room_planning_notes (required_rooms inputs)\<rparr>)"
proof -
  from infer_style_name obtain style where
    st: "infer_style (brief inputs) (image_descriptions inputs) = Inr style"
        "style \<in> set (map fst STYLE_KEYWORDS)" by blast
  from package_lookup [OF st(2)] obtain package ex it fe where
    pk: "dict_get STYLE_PACKAGES style = Inr package"
        "dict_get package ''exterior'' = Inr ex"
        "dict_get package ''interior'' = Inr it" "dict_get package ''features'' = Inr fe"
        "length ex = 3" "length it = 3" "length fe = 3" by blast
  have "propose inputs =
       (case site_strategy (plot inputs) of
          Inl e \<Rightarrow> Inl e
        | Inr ns \<Rightarrow>
            Inr \<lparr>selected_style = style,
                 style_confidence =
                   (if image_descriptions inputs \<noteq> [] then ''high'' else ''medium''),
                 exterior_finishes = ex, interior_finishes = it, suggested_features = fe,
                 site_strategy_f = ns,
                 room_planning_notes_f = room_planning_notes (required_rooms inputs)\<rparr>)"
    by (simp add: propose_def st(1) pk(1,2,3,4) split: sum.splits)
  moreover have "style \<in> set (map fst STYLE_PACKAGES)"
    using st(2) by (simp only: package_names)
  ultimately show ?thesis using st(1) pk(5,6,7) by blast
qed

lemma propose_result:
  "propose inputs = Inl OverflowError \<or>
   (\<exists>p. propose inputs = Inr p \<and>
      style_confidence p = (if image_descriptions inputs \<noteq> [] then ''high'' else ''medium'') \<and>
      length (exterior_finishes p) = 3 \<and> length (interior_finishes p) = 3 \<and>
      length (suggested_features p) = 3 \<and>
      site_strategy (plot inputs) = Inr (site_strategy_f p) \<and>
      room_planning_notes_f p = room_planning_notes (required_rooms inputs))"
proof -
  from propose_cases [of inputs] obtain style ex it fe where
    c: "length ex = 3" "length it = 3" "length fe = 3"
       "propose inputs =
         (case site_strategy (plot inputs) of
            Inl e \<Rightarrow> Inl e
          | Inr ns \<Rightarrow>
              Inr \<lparr>selected_style = style,
                   style_confidence =
                     (if image_descriptions inputs \<noteq> [] then ''high'' else ''medium''),
                   exterior_finishes = ex, interior_finishes = it, suggested_features = fe,
                   site_strategy_f = ns,
                   room_planning_notes_f = room_planning_notes (required_rooms inputs)\<rparr>)"
    by blast
  from site_strategy_cases [of "plot inputs"] show ?thesis
  proof
    assume "site_strategy (plot inputs) = Inl OverflowError"
    with c(4) show ?thesis by simp
  next
    assume "\<exists>ns. site_strategy (plot inputs) = Inr ns \<and> length ns = 4"
    then obtain ns where "site_strategy (plot inputs) = Inr ns" by blast
    with c show ?thesis by simp
  qed
qed

lemma propose_float:
  assumes "width_m (plot inputs) = PyFloat w" and "depth_m (plot inputs) = PyFloat d"
  shows "\<exists>p. propose inputs = Inr p \<and>
      style_confidence p = (if image_descriptions inputs \<noteq> [] then ''high'' else ''medium'') \<and>
      length (exterior_finishes p) = 3 \<and> length (interior_finishes p) = 3 \<and>
      length (suggested_features p) = 3"
proof -
  have "\<exists>ns. site_strategy (plot inputs) = Inr ns \<and> length ns = 4 \<and>
     ns ! 0 = ''Plot area is approximately '' @ format_0f (fmul w d) @ '' m'' @ [CHR 0xB2] @
            ''; reserve 35-45% for landscaped open space.''"
    by (rule site_strategy_ok_first [where area = "PyFloat (fmul w d)"]) (simp_all add: assms)
  then have "propose inputs \<noteq> Inl OverflowError"
    using propose_cases [of inputs] by auto
  with propose_result [of inputs] show ?thesis by blast
qed

lemma bit_length_pow2: "bit_length (2 ^ k) = Suc k"
proof (induction k)
  case 0
  show ?case by simp
next
  case (Suc k)
  have "bit_length (2 ^ Suc k) = Suc (bit_length (2 ^ Suc k div 2))"
    by (subst bit_length.simps) simp
  also have "(2::nat) ^ Suc k div 2 = 2 ^ k" by simp
  finally show ?case using Suc.IH by simp
qed

lemma pow_split: "(2::nat) ^ 1024 = 2 ^ 52 * 2 ^ 972"
  by (simp only: power_add [symmetric]) simp

lemma pow_div: "(2::nat) ^ 1024 div 2 ^ 972 = 2 ^ 52"
  unfolding pow_split by (rule nonzero_mult_div_cancel_right) simp

lemma pow_mod: "(2::nat) ^ 1024 mod 2 ^ 972 = 0"
  unfolding pow_split by (rule mod_mult_self2_is_0)

lemma rhe_pow: "round_half_even (2 ^ 1024) 972 = 2 ^ 52"
  unfolding round_half_even_def pow_div pow_mod Let_def by simp


lemma round_to_double_overflow: "round_to_double False (2 ^ 1024) 0 = Infinity False"
proof -
  have b1: "int (bit_length (2 ^ 1024)) = 1025" by (simp only: bit_length_pow2)
  have b2: "int (bit_length (2 ^ 52)) = 53" by (simp only: bit_length_pow2)
  have k: "max (int (bit_length (2 ^ 1024)) - 53) (- 1074 - 0) = 972"
    unfolding b1 by simp
  have nz: "(2::nat) ^ 52 \<noteq> 0" by simp
  have r: "round_half_even (2 ^ 1024) (nat 972) = 2 ^ 52"
    using rhe_pow by simp
  show ?thesis
    unfolding round_to_double_def k Let_def
    by (simp only: r b2 nz) simp
qed

lemma int_to_float_overflow: "int_to_float (2 ^ 1024) = Inl OverflowError"
proof -
  have n: "nat \<bar>2 ^ 1024 :: int\<bar> = 2 ^ 1024" by (simp add: nat_power_eq)
  have s: "((2 ^ 1024 :: int) < 0) = False" by simp
  show ?thesis
    unfolding int_to_float_def n s round_to_double_overflow by simp
qed

lemma site_strategy_overflow:
  "width_m p = PyInt (2 ^ 1024) \<Longrightarrow> depth_m p = PyInt 1 \<Longrightarrow>
   site_strategy p = Inl OverflowError"
  by (simp only: site_strategy_def py_mul.simps mult_1_right format_0f_num_def to_float.simps
        int_to_float_overflow sum.case)

text \<open>
  Claim C4, amended. For every \<^verbatim>\<open>UserInputs\<close> value \<^verbatim>\<open>infer_style\<close> returns one of the six
  style names, these are exactly the keys of the package table, and the lookup
  \<^verbatim>\<open>STYLE_PACKAGES[style]\<close> finds its package. \<^verbatim>\<open>propose\<close> returns a proposal or raises
  \<^verbatim>\<open>OverflowError\<close>; it returns exactly when \<^verbatim>\<open>site_strategy\<close> returns, and so whenever both
  plot dimensions are floats. (The claim as written, for every well-formed input, fails: the
  counterexample below has the int dimensions \<open>2\<^sup>1\<^sup>0\<^sup>2\<^sup>4\<close> and 1, whose area is too large to
  be formatted.)
\<close>
theorem propose_succeeds:
  "(\<exists>style. infer_style (brief inputs) (image_descriptions inputs) = Inr style \<and>
      style \<in> set (map fst STYLE_PACKAGES) \<and>
      (\<exists>package. dict_get STYLE_PACKAGES style = Inr package)) \<and>
   map fst STYLE_PACKAGES =
     [''modern'', ''farmhouse'', ''contemporary'', ''traditional'', ''coastal'', ''craftsman''] \<and>
   ((\<exists>p. propose inputs = Inr p) \<or> propose inputs = Inl OverflowError) \<and>
   ((\<exists>p. propose inputs = Inr p) = (\<exists>ns. site_strategy (plot inputs) = Inr ns)) \<and>
   (\<forall>w d. width_m (plot inputs) = PyFloat w \<and> depth_m (plot inputs) = PyFloat d \<longrightarrow>
      (\<exists>p. propose inputs = Inr p))"
proof -
  from propose_cases [of inputs] obtain style ex it fe where
    r: "infer_style (brief inputs) (image_descriptions inputs) = Inr style"
       "style \<in> set (map fst STYLE_PACKAGES)"
       "propose inputs =
         (case site_strategy (plot inputs) of
            Inl e \<Rightarrow> Inl e
          | Inr ns \<Rightarrow>
              Inr \<lparr>selected_style = style,
                   style_confidence =
                     (if image_descriptions inputs \<noteq> [] then ''high'' else ''medium''),
                   exterior_finishes = ex, interior_finishes = it, suggested_features = fe,
                   site_strategy_f = ns,
                   room_planning_notes_f = room_planning_notes (required_rooms inputs)\<rparr>)"
    by blast
  from dict_get_in_keys [OF r(2)] obtain package where
    "dict_get STYLE_PACKAGES style = Inr package" by blast
  with r(1,2) have lookup:
    "\<exists>style. infer_style (brief inputs) (image_descriptions inputs) = Inr style \<and>
      style \<in> set (map fst STYLE_PACKAGES) \<and>
      (\<exists>package. dict_get STYLE_PACKAGES style = Inr package)" by blast
  have names: "map fst STYLE_PACKAGES =
     [''modern'', ''farmhouse'', ''contemporary'', ''traditional'', ''coastal'', ''craftsman'']"
    by (simp only: package_names style_names)
  have either: "(\<exists>p. propose inputs = Inr p) \<or> propose inputs = Inl OverflowError"
    using propose_result [of inputs] by blast
  have iff: "(\<exists>p. propose inputs = Inr p) = (\<exists>ns. site_strategy (plot inputs) = Inr ns)"
    unfolding r(3) by (cases "site_strategy (plot inputs)") simp_all
  have fl: "\<exists>p. propose inputs = Inr p"
    if "width_m (plot inputs) = PyFloat w \<and> depth_m (plot inputs) = PyFloat d" for w d
    using that propose_float [of inputs w d] by blast
  from lookup names either iff fl show ?thesis by blast
qed

theorem propose_succeeds_witness:
  "\<exists>p. propose \<lparr>brief = ''a modern house'', image_descriptions = [],
        required_rooms = [''3 bedrooms'', ''2 bathrooms''],
        plot = \<lparr>width_m = PyFloat (Finite False 15 0), depth_m = PyFloat (Finite False 30 0),
                 slope = ''flat'', climate = ''temperate'',
                 orientation = ''north-facing street''\<rparr>\<rparr> = Inr p"
proof -
  let ?inputs = "\<lparr>brief = ''a modern house'', image_descriptions = [],
        required_rooms = [''3 bedrooms'', ''2 bathrooms''],
        plot = \<lparr>width_m = PyFloat (Finite False 15 0), depth_m = PyFloat (Finite False 30 0),
                 slope = ''flat'', climate = ''temperate'',
                 orientation = ''north-facing street''\<rparr>\<rparr>"
  have h: "width_m (plot ?inputs) = PyFloat (Finite False 15 0) \<and>
      depth_m (plot ?inputs) = PyFloat (Finite False 30 0)" by simp
  from propose_succeeds [of ?inputs, THEN conjunct2, THEN conjunct2, THEN conjunct2,
      THEN conjunct2, rule_format, OF h]
  show ?thesis .
qed

theorem propose_overflow_counterexample:
  "propose \<lparr>brief = ''a modern house'', image_descriptions = [],
      required_rooms = [''3 bedrooms'', ''2 bathrooms''],
      plot = \<lparr>width_m = PyInt (2 ^ 1024), depth_m = PyInt 1,
               slope = ''flat'', climate = ''temperate'',
               orientation = ''north-facing street''\<rparr>\<rparr> = Inl OverflowError"
proof -
  let ?inputs = "\<lparr>brief = ''a modern house'', image_descriptions = [],
      required_rooms = [''3 bedrooms'', ''2 bathrooms''],
      plot = \<lparr>width_m = PyInt (2 ^ 1024), depth_m = PyInt 1,
               slope = ''flat'', climate = ''temperate'',
               orientation = ''north-facing street''\<rparr>\<rparr>"
  have "width_m (plot ?inputs) = PyInt (2 ^ 1024)" "depth_m (plot ?inputs) = PyInt 1"
    by (simp_all only: UserInputs.select_convs PlotDetails.select_convs)
  then have "site_strategy (plot ?inputs) = Inl OverflowError"
    by (rule site_strategy_overflow)
  with propose_cases [of ?inputs] show ?thesis by (auto simp only: sum.case)
qed

text \<open>
  Claim C5. The confidence of the proposal that \<^verbatim>\<open>propose\<close> returns is \<^verbatim>\<open>"high"\<close> when there
  is at least one image description and \<^verbatim>\<open>"medium"\<close> when there is none; nothing else of
  the input decides it. (\<^verbatim>\<open>propose\<close> returns no proposal only where it raises
  \<^verbatim>\<open>OverflowError\<close>, which it never does on float dimensions.)
\<close>
theorem propose_confidence:
  "(propose inputs = Inl OverflowError \<or>
      (\<exists>p. propose inputs = Inr p \<and>
         style_confidence p =
           (if image_descriptions inputs \<noteq> [] then ''high'' else ''medium''))) \<and>
   (\<exists>p. propose (inputs\<lparr>plot := (plot inputs)\<lparr>width_m := PyFloat w, depth_m := PyFloat d\<rparr>\<rparr>) =
         Inr p \<and>
      style_confidence p = (if image_descriptions inputs \<noteq> [] then ''high'' else ''medium''))"
proof -
  have a: "propose inputs = Inl OverflowError \<or>
      (\<exists>p. propose inputs = Inr p \<and>
         style_confidence p =
           (if image_descriptions inputs \<noteq> [] then ''high'' else ''medium''))"
    using propose_result [of inputs] by blast
  have b: "\<exists>p. propose (inputs\<lparr>plot := (plot inputs)\<lparr>width_m := PyFloat w, depth_m := PyFloat d\<rparr>\<rparr>) =
         Inr p \<and>
      style_confidence p = (if image_descriptions inputs \<noteq> [] then ''high'' else ''medium'')"
    using propose_float
      [of "inputs\<lparr>plot := (plot inputs)\<lparr>width_m := PyFloat w, depth_m := PyFloat d\<rparr>\<rparr>" w d]
    by auto
  from a b show ?thesis by blast
qed

text \<open>
  Claim C10. The exterior finishes, the interior finishes and the suggested features of the
  proposal that \<^verbatim>\<open>propose\<close> returns are three strings each; every package of the table has
  the three lists \<^verbatim>\<open>exterior\<close>, \<^verbatim>\<open>interior\<close>, \<^verbatim>\<open>features\<close> of three strings each.
  (\<^verbatim>\<open>propose\<close> returns no proposal only where it raises \<^verbatim>\<open>OverflowError\<close>, which it never
  does on float dimensions.)
\<close>
theorem propose_three_each:
  "(propose inputs = Inl OverflowError \<or>
      (\<exists>p. propose inputs = Inr p \<and> length (exterior_finishes p) = 3 \<and>
         length (interior_finishes p) = 3 \<and> length (suggested_features p) = 3)) \<and>
   (\<exists>p. propose (inputs\<lparr>plot := (plot inputs)\<lparr>width_m := PyFloat w, depth_m := PyFloat d\<rparr>\<rparr>) =
         Inr p \<and>
      length (exterior_finishes p) = 3 \<and> length (interior_finishes p) = 3 \<and>
      length (suggested_features p) = 3) \<and>
   list_all (\<lambda>(style, package).
       map fst package = [''exterior'', ''interior'', ''features''] \<and>
       list_all (\<lambda>(name, items). length items = 3) package) STYLE_PACKAGES"
proof -
  have a: "propose inputs = Inl OverflowError \<or>
      (\<exists>p. propose inputs = Inr p \<and> length (exterior_finishes p) = 3 \<and>
         length (interior_finishes p) = 3 \<and> length (suggested_features p) = 3)"
    using propose_result [of inputs] by blast
  have b: "\<exists>p. propose (inputs\<lparr>plot := (plot inputs)\<lparr>width_m := PyFloat w, depth_m := PyFloat d\<rparr>\<rparr>) =
         Inr p \<and>
      length (exterior_finishes p) = 3 \<and> length (interior_finishes p) = 3 \<and>
      length (suggested_features p) = 3"
    using propose_float
      [of "inputs\<lparr>plot := (plot inputs)\<lparr>width_m := PyFloat w, depth_m := PyFloat d\<rparr>\<rparr>" w d]
    by auto
  from a b packages_shape show ?thesis by blast
qed

section \<open>Properties of the room planning notes\<close>

lemma join_Cons: "join sep (x # xs) = x @ concat (map ((@) sep) xs)"
  by (induction xs arbitrary: x) simp_all

text \<open>
  Claim C7. \<^verbatim>\<open>room_planning_notes\<close> returns three notes. The first is the fixed sentence
  around the rooms in their order, a comma and a blank between two rooms; the second and the
  third are fixed. For the rooms \<^verbatim>\<open>["3 bedrooms", "2 bathrooms"]\<close> the first note contains
  \<^verbatim>\<open>3 bedrooms, 2 bathrooms\<close>.
\<close>
theorem room_planning_notes_three:
  "room_planning_notes rooms =
     [''Prioritize adjacency planning for: '' @
        (case rooms of [] \<Rightarrow> [] | r # rs \<Rightarrow> r @ concat (map ((@) '', '') rs)) @ ''.'',
      ''Keep kitchen, dining, and family spaces connected; isolate acoustic-sensitive spaces.'',
      ''Plan storage early: pantry, linen, utility, and integrated wardrobes.''] \<and>
   length (room_planning_notes rooms) = 3 \<and>
   sublist (join '', '' rooms) (room_planning_notes rooms ! 0) \<and>
   sublist ''3 bedrooms, 2 bathrooms'' (room_planning_notes [''3 bedrooms'', ''2 bathrooms''] ! 0)"
proof -
  have n0: "room_planning_notes rs ! 0 =
      ''Prioritize adjacency planning for: '' @ join '', '' rs @ ''.''" for rs
    by (simp add: room_planning_notes_def)
  have s1: "sublist (join '', '' rs) (room_planning_notes rs ! 0)" for rs
    unfolding n0 by (rule sublist_appendI)
  have j: "join '', '' [''3 bedrooms'', ''2 bathrooms''] = ''3 bedrooms, 2 bathrooms''"
    by simp
  have s2: "sublist ''3 bedrooms, 2 bathrooms''
      (room_planning_notes [''3 bedrooms'', ''2 bathrooms''] ! 0)"
    using s1 [of "[''3 bedrooms'', ''2 bathrooms'']"] unfolding j .
  have l: "length (room_planning_notes rooms) = 3"
    by (simp add: room_planning_notes_def)
  have e: "room_planning_notes rooms =
     [''Prioritize adjacency planning for: '' @
        (case rooms of [] \<Rightarrow> [] | r # rs \<Rightarrow> r @ concat (map ((@) '', '') rs)) @ ''.'',
      ''Keep kitchen, dining, and family spaces connected; isolate acoustic-sensitive spaces.'',
      ''Plan storage early: pantry, linen, utility, and integrated wardrobes.'']"
  proof (cases rooms)
    case Nil
    then show ?thesis by (simp add: room_planning_notes_def)
  next
    case (Cons r rs)
    then show ?thesis by (simp add: room_planning_notes_def join_Cons del: join.simps)
  qed
  from e l s1 s2 show ?thesis by blast
qed

text \<open>
  Claim C9. When every comma-separated segment of the \<^verbatim>\<open>--rooms\<close> value is empty after
  trimming, the list of required rooms is empty, and \<^verbatim>\<open>room_planning_notes\<close> still returns
  its three notes, the first one with nothing between the colon and the full stop.
\<close>
theorem room_planning_notes_empty:
  assumes "\<forall>seg \<in> set (split (args_rooms args) CHR '',''). strip seg = []"
  shows "required_rooms (main_inputs args) = [] \<and>
         room_planning_notes (required_rooms (main_inputs args)) =
           [''Prioritize adjacency planning for: .'',
            ''Keep kitchen, dining, and family spaces connected; isolate acoustic-sensitive spaces.'',
            ''Plan storage early: pantry, linen, utility, and integrated wardrobes.'']"
proof -
  have "filter (\<lambda>s. strip s \<noteq> []) (split (args_rooms args) CHR '','') = []"
    using assms by (simp add: filter_empty_conv)
  then have "required_rooms (main_inputs args) = []"
    by (simp add: main_inputs_def split_items_def)
  then show ?thesis by (simp add: room_planning_notes_def)
qed

theorem room_planning_notes_empty_witness:
  "room_planning_notes (required_rooms (main_inputs
      \<lparr>args_brief = ''a modern house'', args_images = '''',
       args_rooms = '' , ,'', args_plot_width = Finite False 15 0,
       args_plot_depth = Finite False 30 0, args_slope = ''flat'',
       args_climate = ''temperate'', args_orientation = ''north-facing street'',
       args_json = False\<rparr>)) =
     [''Prioritize adjacency planning for: .'',
      ''Keep kitchen, dining, and family spaces connected; isolate acoustic-sensitive spaces.'',
      ''Plan storage early: pantry, linen, utility, and integrated wardrobes.'']"
proof -
  let ?args = "\<lparr>args_brief = ''a modern house'', args_images = '''',
       args_rooms = '' , ,'', args_plot_width = Finite False 15 0,
       args_plot_depth = Finite False 30 0, args_slope = ''flat'',
       args_climate = ''temperate'', args_orientation = ''north-facing street'',
       args_json = False\<rparr>"
  have h: "\<forall>seg \<in> set (split (args_rooms ?args) CHR '',''). strip seg = []"
    by (simp add: split_def strip_def is_space_def)
  from room_planning_notes_empty [OF h] show ?thesis by (rule conjunct2)
qed

section \<open>Properties of the structured output\<close>

declare parse_items.simps [simp del] parse_members.simps [simp del]

lemma hex_value_hex_digit: "d < 16 \<Longrightarrow> hex_value (hex_digit d) = Some d"
  by (auto simp: hex_value_def hex_digit_def Let_def)

lemma decode_hex4:
  assumes "n < 256"
  shows "decode_uXXXX (hex_digit (n div 4096 mod 16)) (hex_digit (n div 256 mod 16))
           (hex_digit (n div 16 mod 16)) (hex_digit (n mod 16)) = Some n"
proof -
  have z: "n div 4096 = 0" "n div 256 = 0" using assms by simp_all
  have l: "n div 16 < 16" using assms by simp
  have h0: "hex_value (hex_digit 0) = Some 0" by (rule hex_value_hex_digit) simp
  have h1: "hex_value (hex_digit (n div 16)) = Some (n div 16)"
    using l by (rule hex_value_hex_digit)
  have h2: "hex_value (hex_digit (n mod 16)) = Some (n mod 16)"
    by (rule hex_value_hex_digit) simp
  show ?thesis
    unfolding decode_uXXXX_def z using l by (simp add: h0 h1 h2)
qed

lemma scanstring_plain:
  "c \<noteq> CHR 0x22 \<Longrightarrow> c \<noteq> CHR 0x5C \<Longrightarrow> 32 \<le> (of_char c :: nat) \<Longrightarrow>
   scanstring (c # t) = (case scanstring t of None \<Rightarrow> None | Some (s, r) \<Rightarrow> Some (c # s, r))"
  by simp

lemma scanstring_simple_escape:
  "e \<noteq> CHR ''u'' \<Longrightarrow> unescape e = Some ch \<Longrightarrow>
   scanstring (CHR 0x5C # e # t) =
     (case scanstring t of None \<Rightarrow> None | Some (s, r) \<Rightarrow> Some (ch # s, r))"
  by simp

lemma scanstring_u_escape:
  "decode_uXXXX h1 h2 h3 h4 = Some n \<Longrightarrow> n < 256 \<Longrightarrow>
   scanstring (CHR 0x5C # CHR ''u'' # h1 # h2 # h3 # h4 # t) =
     (case scanstring t of None \<Rightarrow> None | Some (s, r) \<Rightarrow> Some (char_of n # s, r))"
  by simp

lemma scanstring_escape_char:
  "scanstring (escape_char c @ t) =
     (case scanstring t of None \<Rightarrow> None | Some (s, r) \<Rightarrow> Some (c # s, r))"
proof (cases "c \<in> {CHR 0x22, CHR 0x5C, CHR 0x0A, CHR 0x0D, CHR 0x09, CHR 0x08, CHR 0x0C}")
  case True
  then consider "c = CHR 0x22" | "c = CHR 0x5C" | "c = CHR 0x0A" | "c = CHR 0x0D"
    | "c = CHR 0x09" | "c = CHR 0x08" | "c = CHR 0x0C" by blast
  then show ?thesis
  proof cases
    case 1
    show ?thesis unfolding 1 by (simp add: escape_char_def unescape_def)
  next
    case 2
    show ?thesis unfolding 2 by (simp add: escape_char_def unescape_def)
  next
    case 3
    show ?thesis unfolding 3 by (simp add: escape_char_def unescape_def)
  next
    case 4
    show ?thesis unfolding 4 by (simp add: escape_char_def unescape_def)
  next
    case 5
    show ?thesis unfolding 5 by (simp add: escape_char_def unescape_def)
  next
    case 6
    show ?thesis unfolding 6 by (simp add: escape_char_def unescape_def)
  next
    case 7
    show ?thesis unfolding 7 by (simp add: escape_char_def unescape_def)
  qed
next
  case False
  then have ne: "c \<noteq> CHR 0x22" "c \<noteq> CHR 0x5C" "c \<noteq> CHR 0x0A" "c \<noteq> CHR 0x0D"
    "c \<noteq> CHR 0x09" "c \<noteq> CHR 0x08" "c \<noteq> CHR 0x0C" by simp_all
  show ?thesis
  proof (cases "32 \<le> (of_char c :: nat) \<and> (of_char c :: nat) \<le> 126")
    case True
    then have "escape_char c = [c]" using ne by (simp add: escape_char_def)
    then show ?thesis using ne(1,2) True by simp
  next
    case False
    then have e: "escape_char c = [CHR 0x5C, CHR ''u''] @ hex4 (of_char c)"
      using ne by (simp add: escape_char_def)
    have n: "(of_char c :: nat) < 256" by simp
    have "scanstring (CHR 0x5C # CHR ''u'' # hex_digit (of_char c div 4096 mod 16) #
             hex_digit (of_char c div 256 mod 16) # hex_digit (of_char c div 16 mod 16) #
             hex_digit (of_char c mod 16) # t) =
          (case scanstring t of None \<Rightarrow> None | Some (s, r) \<Rightarrow> Some (char_of (of_char c :: nat) # s, r))"
      by (rule scanstring_u_escape [OF decode_hex4 [OF n] n])
    then show ?thesis
      unfolding e hex4_def by (simp only: append_Cons append_Nil char_of_char)
  qed
qed

lemma scanstring_encoded:
  "scanstring (concat (map escape_char s) @ CHR 0x22 # r) = Some (s, r)"
proof (induction s)
  case Nil
  show ?case by simp
next
  case (Cons c s)
  have "scanstring (escape_char c @ (concat (map escape_char s) @ CHR 0x22 # r)) = Some (c # s, r)"
    unfolding scanstring_escape_char Cons.IH by simp
  then show ?case by simp
qed

lemma encode_string_Cons:
  "encode_basestring_ascii s @ r = CHR 0x22 # (concat (map escape_char s) @ CHR 0x22 # r)"
  by (simp add: encode_basestring_ascii_def)

lemma not_ws [simp]:
  "\<not> is_ws (CHR 0x22)" "\<not> is_ws CHR '',''" "\<not> is_ws CHR '':''" "\<not> is_ws CHR '']''"
  "\<not> is_ws CHR ''[''" "\<not> is_ws CHR ''}''" "\<not> is_ws CHR ''{''"
  by (simp_all add: is_ws_def)

lemma skip_ws_stop [simp]: "\<not> is_ws c \<Longrightarrow> skip_ws (c # r) = c # r"
  by (simp add: skip_ws_def)

lemma skip_ws_newline_indent [simp]:
  "\<not> is_ws c \<Longrightarrow> skip_ws (newline_indent l @ c # r) = c # r"
proof -
  assume c: "\<not> is_ws c"
  have "dropWhile is_ws (replicate n CHR '' '' @ c # r) = c # r" for n
    using c by (induction n) (simp_all add: is_ws_def)
  then show ?thesis
    by (simp add: skip_ws_def newline_indent_def is_ws_def)
qed

lemma skip_ws_blank [simp]: "\<not> is_ws c \<Longrightarrow> skip_ws (CHR '' '' # c # r) = c # r"
  by (simp add: skip_ws_def is_ws_def)

lemma join_Cons2: "ys \<noteq> [] \<Longrightarrow> join sep (y # ys) = y @ sep @ join sep ys"
  by (cases ys) simp_all

lemma parse_items_quote:
  "parse_items (CHR 0x22 # t1) =
     (case scanstring t1 of
        None \<Rightarrow> None
      | Some (s, t2) \<Rightarrow>
          (case skip_ws t2 of
             [] \<Rightarrow> None
           | c # t3 \<Rightarrow>
               if c = CHR '']'' then Some ([s], t3)
               else if c = CHR '','' then
                 (case parse_items (skip_ws t3) of
                    None \<Rightarrow> None
                  | Some (ss, r) \<Rightarrow> Some (s # ss, r))
               else None))"
  by (subst parse_items.simps) simp

lemma parse_items_encoded:
  "xs \<noteq> [] \<Longrightarrow>
   parse_items (join (CHR '','' # newline_indent l) (map encode_basestring_ascii xs) @
                newline_indent l' @ CHR '']'' # r) = Some (xs, r)"
proof (induction xs rule: list_nonempty_induct)
  case (single x)
  show ?case
    by (simp add: encode_string_Cons parse_items_quote scanstring_encoded)
next
  case (cons x xs)
  let ?rest = "join (CHR '','' # newline_indent l) (map encode_basestring_ascii xs) @
                newline_indent l' @ CHR '']'' # r"
  from cons.hyps obtain y ys where xs: "xs = y # ys" by (cases xs) auto
  obtain tl where tl: "?rest = CHR 0x22 # tl"
    by (cases ys) (simp_all add: xs encode_basestring_ascii_def)
  have j: "join (CHR '','' # newline_indent l) (map encode_basestring_ascii (x # xs)) @
                newline_indent l' @ CHR '']'' # r =
        CHR 0x22 # (concat (map escape_char x) @ CHR 0x22 # (CHR '','' # newline_indent l @ ?rest))"
    using cons.hyps by (simp add: join_Cons2 encode_basestring_ascii_def del: join.simps)
  have sk: "skip_ws (newline_indent l @ ?rest) = ?rest"
    unfolding tl by simp
  show ?case
    unfolding j parse_items_quote scanstring_encoded
    by (simp add: sk cons.IH del: join.simps)
qed

lemma parse_array_encoded:
  "parse_value (encode_list l xs @ r) = Some (JList xs, r)"
proof (cases "xs = []")
  case True
  then show ?thesis
    by (simp add: encode_list_def parse_value_def parse_array_def)
next
  case False
  let ?rest = "join (CHR '','' # newline_indent (Suc l)) (map encode_basestring_ascii xs) @
                newline_indent l @ CHR '']'' # r"
  from False obtain y ys where xs: "xs = y # ys" by (cases xs) auto
  obtain tl where tl: "?rest = CHR 0x22 # tl"
    by (cases ys) (simp_all add: xs encode_basestring_ascii_def)
  have e: "encode_list l xs @ r = CHR ''['' # newline_indent (Suc l) @ ?rest"
    using False by (simp add: encode_list_def)
  have sk: "skip_ws (newline_indent (Suc l) @ ?rest) = ?rest"
    unfolding tl by simp
  have "parse_array (newline_indent (Suc l) @ ?rest) = parse_items ?rest"
    unfolding parse_array_def sk by (simp add: tl)
  then show ?thesis
    unfolding e using parse_items_encoded [OF False, of "Suc l" l r]
    by (simp add: parse_value_def)
qed

lemma parse_value_encoded:
  "parse_value (encode_value l v @ r) = Some (v, r)"
proof (cases v)
  case (JStr s)
  then show ?thesis
    by (simp add: parse_value_def encode_string_Cons scanstring_encoded)
next
  case (JList xs)
  then show ?thesis by (simp add: parse_array_encoded)
qed

lemma encode_value_head:
  "\<exists>c tl. encode_value l v @ r = c # tl \<and> \<not> is_ws c"
  by (cases v) (auto simp: encode_basestring_ascii_def encode_list_def)

lemma parse_members_quote:
  "parse_members (CHR 0x22 # t1) =
     (case scanstring t1 of
        None \<Rightarrow> None
      | Some (k, t2) \<Rightarrow>
          (case skip_ws t2 of
             [] \<Rightarrow> None
           | c # t3 \<Rightarrow>
               if c \<noteq> CHR '':'' then None
               else
                 (case parse_value (skip_ws t3) of
                    None \<Rightarrow> None
                  | Some (v, t4) \<Rightarrow>
                      (case skip_ws t4 of
                         [] \<Rightarrow> None
                       | d # t5 \<Rightarrow>
                           if d = CHR ''}'' then Some ([(k, v)], t5)
                           else if d = CHR '','' then
                             (case parse_members (skip_ws t5) of
                                None \<Rightarrow> None
                              | Some (kvs, r) \<Rightarrow> Some ((k, v) # kvs, r))
                           else None))))"
  by (subst parse_members.simps) simp

lemma parse_member_one:
  "parse_members (encode_item l (k, v) @ t) =
     (case skip_ws t of
        [] \<Rightarrow> None
      | c # t' \<Rightarrow>
          if c = CHR ''}'' then Some ([(k, v)], t')
          else if c = CHR '','' then
            (case parse_members (skip_ws t') of
               None \<Rightarrow> None
             | Some (kvs, r) \<Rightarrow> Some ((k, v) # kvs, r))
          else None)"
proof -
  from encode_value_head [of l v t] obtain h tl where
    h: "encode_value l v @ t = h # tl" "\<not> is_ws h" by blast
  have e: "encode_item l (k, v) @ t =
      CHR 0x22 # (concat (map escape_char k) @ CHR 0x22 #
        (CHR '':'' # CHR '' '' # (encode_value l v @ t)))"
    by (simp add: encode_item_def encode_basestring_ascii_def)
  have sk: "skip_ws (CHR '' '' # (encode_value l v @ t)) = encode_value l v @ t"
    unfolding h(1) using h(2) by simp
  show ?thesis
    unfolding e parse_members_quote scanstring_encoded
    by (simp add: sk parse_value_encoded)
qed

lemma encode_item_head: "\<exists>tl. encode_item l kv @ r = CHR 0x22 # tl"
  by (cases kv) (simp add: encode_item_def encode_basestring_ascii_def)

lemma parse_members_encoded:
  "d \<noteq> [] \<Longrightarrow>
   parse_members (join (CHR '','' # newline_indent l) (map (encode_item l) d) @
                  newline_indent l' @ CHR ''}'' # r) = Some (d, r)"
proof (induction d rule: list_nonempty_induct)
  case (single kv)
  obtain k v where kv: "kv = (k, v)" by (cases kv)
  show ?case by (simp add: kv parse_member_one)
next
  case (cons kv d)
  obtain k v where kv: "kv = (k, v)" by (cases kv)
  let ?rest = "join (CHR '','' # newline_indent l) (map (encode_item l) d) @
                  newline_indent l' @ CHR ''}'' # r"
  from cons.hyps obtain y ys where d: "d = y # ys" by (cases d) auto
  obtain tl where tl: "?rest = CHR 0x22 # tl"
  proof (cases ys)
    case Nil
    with encode_item_head [of l y "newline_indent l' @ CHR ''}'' # r"] that show ?thesis
      by (auto simp: d)
  next
    case (Cons z zs)
    with encode_item_head [of l y "CHR '','' # newline_indent l @
        join (CHR '','' # newline_indent l) (map (encode_item l) (z # zs)) @
        newline_indent l' @ CHR ''}'' # r"] that show ?thesis
      by (auto simp: d)
  qed
  have j: "join (CHR '','' # newline_indent l) (map (encode_item l) (kv # d)) @
                newline_indent l' @ CHR ''}'' # r =
        encode_item l (k, v) @ CHR '','' # (newline_indent l @ ?rest)"
    using cons.hyps by (simp add: join_Cons2 kv del: join.simps)
  have sk: "skip_ws (newline_indent l @ ?rest) = ?rest"
    unfolding tl by simp
  show ?case
    unfolding j by (simp add: parse_member_one sk cons.IH kv del: join.simps)
qed

lemma dict_set_fresh: "k \<notin> fst ` set d \<Longrightarrow> dict_set d k v = d @ [(k, v)]"
  by (induction d) auto

lemma dict_of_pairs_append:
  "distinct (map fst (acc @ kvs)) \<Longrightarrow> dict_of_pairs kvs acc = acc @ kvs"
proof (induction kvs arbitrary: acc)
  case Nil
  show ?case by simp
next
  case (Cons kv kvs)
  obtain k v where kv: "kv = (k, v)" by (cases kv)
  from Cons.prems have fresh: "k \<notin> fst ` set acc" by (auto simp: kv)
  from Cons.prems have "distinct (map fst ((acc @ [(k, v)]) @ kvs))" by (simp add: kv)
  from Cons.IH [OF this] show ?case by (simp add: kv dict_set_fresh [OF fresh])
qed

lemma skip_ws_all: "\<forall>c \<in> set w. is_ws c \<Longrightarrow> skip_ws w = []"
  by (simp add: skip_ws_def)

lemma json_loads_dumps:
  assumes "distinct (map fst d)" and "\<forall>c \<in> set w. is_ws c"
  shows "json_loads (json_dumps d @ w) = Some d"
proof (cases "d = []")
  case True
  then show ?thesis
    using assms(2)
    by (simp add: json_loads_def json_dumps_def encode_dict_def parse_object_def skip_ws_all)
next
  case False
  let ?rest = "join (CHR '','' # newline_indent (Suc 0)) (map (encode_item (Suc 0)) d) @
                  newline_indent 0 @ CHR ''}'' # w"
  from False obtain y ys where d: "d = y # ys" by (cases d) auto
  obtain tl where tl: "?rest = CHR 0x22 # tl"
  proof (cases ys)
    case Nil
    with encode_item_head [of "Suc 0" y "newline_indent 0 @ CHR ''}'' # w"] that show ?thesis
      by (auto simp: d)
  next
    case (Cons z zs)
    with encode_item_head [of "Suc 0" y "CHR '','' # newline_indent (Suc 0) @
        join (CHR '','' # newline_indent (Suc 0)) (map (encode_item (Suc 0)) (z # zs)) @
        newline_indent 0 @ CHR ''}'' # w"] that show ?thesis
      by (auto simp: d)
  qed
  have e: "json_dumps d @ w = CHR ''{'' # (newline_indent (Suc 0) @ ?rest)"
    using False by (simp add: json_dumps_def encode_dict_def)
  have sk: "skip_ws (newline_indent (Suc 0) @ ?rest) = ?rest"
    unfolding tl by simp
  have po: "parse_object (newline_indent (Suc 0) @ ?rest) = parse_members ?rest"
    unfolding parse_object_def sk by (simp add: tl)
  have "dict_of_pairs d [] = d"
    using dict_of_pairs_append [of "[]" d] assms(1) by simp
  then show ?thesis
    unfolding e json_loads_def
    using assms(2) by (simp add: po parse_members_encoded [OF False] skip_ws_all)
qed

lemma from_dict_asdict: "from_dict (asdict p) = Some p"
  by (simp add: from_dict_def asdict_def)

lemma asdict_keys:
  "map fst (asdict p) =
     [''selected_style'', ''style_confidence'', ''exterior_finishes'', ''interior_finishes'',
      ''suggested_features'', ''site_strategy'', ''room_planning_notes'']"
  by (simp add: asdict_def)

lemma newline_indent_1: "newline_indent (Suc 0) = CHR 0x0A # ''  ''"
  by (simp add: newline_indent_def numeral_2_eq_2)

lemma newline_indent_2: "newline_indent (Suc (Suc 0)) = CHR 0x0A # ''    ''"
  by (simp add: newline_indent_def eval_nat_numeral)

lemma newline_indent_0: "newline_indent 0 = [CHR 0x0A]"
  by (simp add: newline_indent_def)

lemma json_dumps_layout:
  "json_dumps (asdict p) =
     ''{'' @ [CHR 0x0A] @
     ''  '' @ encode_basestring_ascii ''selected_style'' @ '': '' @
        encode_basestring_ascii (selected_style p) @ '','' @ [CHR 0x0A] @
     ''  '' @ encode_basestring_ascii ''style_confidence'' @ '': '' @
        encode_basestring_ascii (style_confidence p) @ '','' @ [CHR 0x0A] @
     ''  '' @ encode_basestring_ascii ''exterior_finishes'' @ '': '' @
        encode_list 1 (exterior_finishes p) @ '','' @ [CHR 0x0A] @
     ''  '' @ encode_basestring_ascii ''interior_finishes'' @ '': '' @
        encode_list 1 (interior_finishes p) @ '','' @ [CHR 0x0A] @
     ''  '' @ encode_basestring_ascii ''suggested_features'' @ '': '' @
        encode_list 1 (suggested_features p) @ '','' @ [CHR 0x0A] @
     ''  '' @ encode_basestring_ascii ''site_strategy'' @ '': '' @
        encode_list 1 (site_strategy_f p) @ '','' @ [CHR 0x0A] @
     ''  '' @ encode_basestring_ascii ''room_planning_notes'' @ '': '' @
        encode_list 1 (room_planning_notes_f p) @ [CHR 0x0A] @
     ''}''"
  by (simp add: json_dumps_def encode_dict_def asdict_def encode_item_def
        newline_indent_1 newline_indent_0)

lemma encode_list_layout:
  "encode_list 1 xs =
     (if xs = [] then ''[]''
      else ''['' @ [CHR 0x0A] @
           ''    '' @ join ('','' @ [CHR 0x0A] @ ''    '') (map encode_basestring_ascii xs) @
           [CHR 0x0A] @ ''  '' @ '']'')"
  by (simp add: encode_list_def newline_indent_1 newline_indent_2)

lemma asdict_distinct: "distinct (map fst (asdict p))"
  by (simp add: asdict_keys)

text \<open>
  Claim C8. Under \<^verbatim>\<open>--json\<close> the program prints \<^verbatim>\<open>json.dumps(asdict(proposal), indent=2)\<close>:
  an object whose members stand on lines of their own behind two blanks, in the order
  \<^verbatim>\<open>selected_style\<close>, \<^verbatim>\<open>style_confidence\<close>, \<^verbatim>\<open>exterior_finishes\<close>, \<^verbatim>\<open>interior_finishes\<close>,
  \<^verbatim>\<open>suggested_features\<close>, \<^verbatim>\<open>site_strategy\<close>, \<^verbatim>\<open>room_planning_notes\<close>, the items of a list
  behind four blanks. Reading that text back (with or without the line break that
  \<^verbatim>\<open>print\<close> appends) gives the dictionary of the proposal again, and the record built from
  it is the proposal, field by field.
\<close>
theorem json_output_round_trip:
  "(\<exists>proposal. propose (main_inputs args) = Inr proposal \<and>
      main_json args = Inr (json_dumps (asdict proposal) @ [CHR 0x0A]) \<and>
      json_loads (json_dumps (asdict proposal) @ [CHR 0x0A]) = Some (asdict proposal) \<and>
      from_dict (asdict proposal) = Some proposal) \<and>
   json_loads (json_dumps (asdict p)) = Some (asdict p) \<and>
   from_dict (asdict p) = Some p \<and>
   json_dumps (asdict p) =
     ''{'' @ [CHR 0x0A] @
     ''  '' @ encode_basestring_ascii ''selected_style'' @ '': '' @
        encode_basestring_ascii (selected_style p) @ '','' @ [CHR 0x0A] @
     ''  '' @ encode_basestring_ascii ''style_confidence'' @ '': '' @
        encode_basestring_ascii (style_confidence p) @ '','' @ [CHR 0x0A] @
     ''  '' @ encode_basestring_ascii ''exterior_finishes'' @ '': '' @
        encode_list 1 (exterior_finishes p) @ '','' @ [CHR 0x0A] @
     ''  '' @ encode_basestring_ascii ''interior_finishes'' @ '': '' @
        encode_list 1 (interior_finishes p) @ '','' @ [CHR 0x0A] @
     ''  '' @ encode_basestring_ascii ''suggested_features'' @ '': '' @
        encode_list 1 (suggested_features p) @ '','' @ [CHR 0x0A] @
     ''  '' @ encode_basestring_ascii ''site_strategy'' @ '': '' @
        encode_list 1 (site_strategy_f p) @ '','' @ [CHR 0x0A] @
     ''  '' @ encode_basestring_ascii ''room_planning_notes'' @ '': '' @
        encode_list 1 (room_planning_notes_f p) @ [CHR 0x0A] @
     ''}'' \<and>
   encode_list 1 xs =
     (if xs = [] then ''[]''
      else ''['' @ [CHR 0x0A] @
           ''    '' @ join ('','' @ [CHR 0x0A] @ ''    '') (map encode_basestring_ascii xs) @
           [CHR 0x0A] @ ''  '' @ '']'')"
proof -
  have rt: "json_loads (json_dumps (asdict q) @ w) = Some (asdict q)"
    if "\<forall>c \<in> set w. is_ws c" for q w
    using asdict_distinct that by (rule json_loads_dumps)
  have rt0: "json_loads (json_dumps (asdict p)) = Some (asdict p)"
    using rt [of "[]" p] by simp
  have "width_m (plot (main_inputs args)) = PyFloat (args_plot_width args)"
    "depth_m (plot (main_inputs args)) = PyFloat (args_plot_depth args)"
    by (simp_all add: main_inputs_def)
  from propose_float [OF this] obtain proposal where
    pr: "propose (main_inputs args) = Inr proposal" by blast
  have mj: "main_json args = Inr (json_dumps (asdict proposal) @ [CHR 0x0A])"
    by (simp add: main_json_def pr)
  have rt1: "json_loads (json_dumps (asdict proposal) @ [CHR 0x0A]) = Some (asdict proposal)"
    by (rule rt) (simp add: is_ws_def)
  from pr mj rt1 from_dict_asdict [of proposal] have
    "\<exists>proposal. propose (main_inputs args) = Inr proposal \<and>
      main_json args = Inr (json_dumps (asdict proposal) @ [CHR 0x0A]) \<and>
      json_loads (json_dumps (asdict proposal) @ [CHR 0x0A]) = Some (asdict proposal) \<and>
      from_dict (asdict proposal) = Some proposal" by blast
  with rt0 from_dict_asdict [of p] json_dumps_layout [of p] encode_list_layout [of xs]
  show ?thesis by (intro conjI)
qed

end
